theory Spec2Isabelle
  imports Main
begin

section \<open>Strings and characters of the host language\<close>

text \<open>
  A JavaScript string is a sequence of code units. The model covers the code units below
  256 (ISO-8859-1), one \<^typ>\<open>char\<close> each, so that \<open>length\<close> counts what
  \<^verbatim>\<open>String.prototype.length\<close> counts and the French accented letters of the source
  (\<open>0xE9\<close> for e-acute, \<open>0xFB\<close> for u-circumflex) are single characters.
\<close>

definition is_digit :: "char \<Rightarrow> bool" where
  "is_digit c = (48 \<le> (of_char c :: nat) \<and> (of_char c :: nat) \<le> 57)"

definition is_word :: "char \<Rightarrow> bool" where
  \<comment> \<open>\<^verbatim>\<open>\w\<close>: \<^verbatim>\<open>[A-Za-z0-9_]\<close>\<close>
  "is_word c = (let n = (of_char c :: nat) in
     (48 \<le> n \<and> n \<le> 57) \<or> (65 \<le> n \<and> n \<le> 90) \<or> (97 \<le> n \<and> n \<le> 122) \<or> n = 95)"

definition is_space :: "char \<Rightarrow> bool" where
  \<comment> \<open>\<^verbatim>\<open>\s\<close> below U+0100: TAB, LF, VT, FF, CR, SPACE, NBSP\<close>
  "is_space c = (let n = (of_char c :: nat) in (9 \<le> n \<and> n \<le> 13) \<or> n = 32 \<or> n = 160)"

definition is_line_terminator :: "char \<Rightarrow> bool" where
  "is_line_terminator c = ((of_char c :: nat) = 10 \<or> (of_char c :: nat) = 13)"

definition lower_char :: "char \<Rightarrow> char" where
  \<comment> \<open>\<^verbatim>\<open>toLowerCase\<close> on one code unit: A-Z and the accented capitals U+00C0..U+00DE
      (the multiplication sign U+00D7 apart) move up by 32\<close>
  "lower_char c = (let n = (of_char c :: nat) in
     if (65 \<le> n \<and> n \<le> 90) \<or> (192 \<le> n \<and> n \<le> 222 \<and> n \<noteq> 215) then char_of (n + 32) else c)"

definition upper_char :: "char \<Rightarrow> char" where
  \<comment> \<open>the case folding of a regular expression with the \<^verbatim>\<open>i\<close> flag (Canonicalize):
      a-z and U+00E0..U+00FE (the division sign U+00F7 apart) move down by 32\<close>
  "upper_char c = (let n = (of_char c :: nat) in
     if (97 \<le> n \<and> n \<le> 122) \<or> (224 \<le> n \<and> n \<le> 254 \<and> n \<noteq> 247) then char_of (n - 32) else c)"

definition toLowerCase :: "string \<Rightarrow> string" where
  "toLowerCase s = map lower_char s"

definition nfkc_char :: "char \<Rightarrow> char" where
  \<comment> \<open>\<^verbatim>\<open>normalize('NFKC')\<close> on one code unit below U+0100: NBSP becomes a space, the
      ordinal indicators and superscript digits become their base character; the precomposed
      accented letters are already normal. The eight code units whose normal form leaves
      ISO-8859-1 (U+00A8, U+00AF, U+00B4, U+00B5, U+00B8, U+00BC..U+00BE) are kept as they are.\<close>
  "nfkc_char c = (let n = (of_char c :: nat) in
     if n = 160 then CHR '' '' else if n = 170 then CHR ''a'' else if n = 186 then CHR ''o''
     else if n = 178 then CHR ''2'' else if n = 179 then CHR ''3'' else if n = 185 then CHR ''1''
     else c)"

definition normalizeNFKC :: "string \<Rightarrow> string" where
  "normalizeNFKC s = map nfkc_char s"

definition trim :: "string \<Rightarrow> string" where
  "trim s = rev (dropWhile is_space (rev (dropWhile is_space s)))"

fun startsWith :: "string \<Rightarrow> string \<Rightarrow> bool" where
  "startsWith s [] = True"
| "startsWith [] (p # ps) = False"
| "startsWith (c # cs) (p # ps) = (c = p \<and> startsWith cs ps)"

fun str_includes :: "string \<Rightarrow> string \<Rightarrow> bool" where
  "str_includes [] p = (p = [])"
| "str_includes (c # cs) p = (startsWith (c # cs) p \<or> str_includes cs p)"

fun split_acc :: "char \<Rightarrow> string \<Rightarrow> string \<Rightarrow> string list" where
  "split_acc sep cur [] = [cur]"
| "split_acc sep cur (c # cs) =
     (if c = sep then cur # split_acc sep [] cs else split_acc sep (cur @ [c]) cs)"

definition split :: "char \<Rightarrow> string \<Rightarrow> string list" where
  \<comment> \<open>\<^verbatim>\<open>s.split(sep)\<close> for a one-character separator\<close>
  "split sep s = split_acc sep [] s"

definition padStart2 :: "string \<Rightarrow> string" where
  \<comment> \<open>\<^verbatim>\<open>s.padStart(2,'0')\<close>\<close>
  "padStart2 s = replicate (2 - length s) (CHR ''0'') @ s"

section \<open>Regular expressions\<close>

text \<open>
  The regular expressions of the source are written as terms of \<open>rx\<close> and run by a
  backtracking matcher that lists the ways a pattern can match at a position, in the order
  in which the host language tries them: the left alternative before the right one, the
  longest repetition first for a greedy quantifier and the shortest first for a lazy one.
  Every quantifier of the source applies to a single character class, which is what
  \<open>Rep\<close> offers.
\<close>

datatype cset = Lit char | Digit | Space | Dot | Rng char char | Or cset cset

fun in_cset :: "cset \<Rightarrow> char \<Rightarrow> bool" where
  "in_cset (Lit a) c = (c = a)"
| "in_cset Digit c = is_digit c"
| "in_cset Space c = is_space c"
| "in_cset Dot c = (\<not> is_line_terminator c)"
| "in_cset (Rng lo hi) c = ((of_char lo :: nat) \<le> of_char c \<and> (of_char c :: nat) \<le> of_char hi)"
| "in_cset (Or a b) c = (in_cset a c \<or> in_cset b c)"

definition cmatch :: "bool \<Rightarrow> cset \<Rightarrow> char \<Rightarrow> bool" where
  \<comment> \<open>with the \<^verbatim>\<open>i\<close> flag a character matches when one of its case variants is in the set\<close>
  "cmatch ic cs c = (in_cset cs c \<or> (ic \<and> (in_cset cs (lower_char c) \<or> in_cset cs (upper_char c))))"

datatype rx =
    Atom cset
  | Str string
  | Rep cset nat "nat option" bool
  | Seq rx rx
  | Alt rx rx
  | Grp nat rx
  | WordB
  | Bol
  | Eol

fun seqs :: "rx list \<Rightarrow> rx" where
  "seqs [] = Str []"
| "seqs [r] = r"
| "seqs (r # rs) = Seq r (seqs rs)"

fun alts :: "rx list \<Rightarrow> rx" where
  "alts [] = Str []"
| "alts [r] = r"
| "alts (r # rs) = Alt r (alts rs)"

abbreviation plus_g :: "cset \<Rightarrow> rx" where "plus_g cs \<equiv> Rep cs 1 None True"
abbreviation star_g :: "cset \<Rightarrow> rx" where "star_g cs \<equiv> Rep cs 0 None True"
abbreviation opt_g :: "cset \<Rightarrow> rx" where "opt_g cs \<equiv> Rep cs 0 (Some 1) True"
abbreviation plus_lazy :: "cset \<Rightarrow> rx" where "plus_lazy cs \<equiv> Rep cs 1 None False"
abbreviation between :: "cset \<Rightarrow> nat \<Rightarrow> nat \<Rightarrow> rx" where "between cs lo hi \<equiv> Rep cs lo (Some hi) True"

type_synonym caps = "(nat \<times> string) list"

text \<open>A matcher state: the character before the position, the rest of the input, the captures.\<close>

type_synonym mstate = "char option \<times> string \<times> caps"

definition prev_after :: "char option \<Rightarrow> string \<Rightarrow> char option" where
  "prev_after p w = (if w = [] then p else Some (last w))"

definition word_at :: "char option \<Rightarrow> bool" where
  "word_at p = (case p of None \<Rightarrow> False | Some c \<Rightarrow> is_word c)"

definition next_char :: "string \<Rightarrow> char option" where
  "next_char r = (case r of [] \<Rightarrow> None | x # _ \<Rightarrow> Some x)"

definition rep_counts :: "nat \<Rightarrow> nat option \<Rightarrow> bool \<Rightarrow> nat \<Rightarrow> nat list" where
  "rep_counts lo hi greedy avail =
     (let top = (case hi of None \<Rightarrow> avail | Some h \<Rightarrow> min h avail);
          ks = [lo ..< Suc top]
      in if greedy then rev ks else ks)"

fun str_match :: "bool \<Rightarrow> string \<Rightarrow> string \<Rightarrow> bool" where
  "str_match ic [] r = True"
| "str_match ic (a # as) [] = False"
| "str_match ic (a # as) (x # xs) = (cmatch ic (Lit a) x \<and> str_match ic as xs)"

fun ms :: "bool \<Rightarrow> rx \<Rightarrow> mstate \<Rightarrow> mstate list" where
  "ms ic (Atom cs) (p, r, c) =
     (case r of [] \<Rightarrow> [] | x # xs \<Rightarrow> if cmatch ic cs x then [(Some x, xs, c)] else [])"
| "ms ic (Str w) (p, r, c) =
     (if str_match ic w r then [(prev_after p (take (length w) r), drop (length w) r, c)] else [])"
| "ms ic (Rep cs lo hi greedy) (p, r, c) =
     map (\<lambda>k. (prev_after p (take k r), drop k r, c))
         (rep_counts lo hi greedy (length (takeWhile (cmatch ic cs) r)))"
| "ms ic (Seq a b) st = concat (map (ms ic b) (ms ic a st))"
| "ms ic (Alt a b) st = ms ic a st @ ms ic b st"
| "ms ic (Grp n a) (p, r, c) =
     map (\<lambda>(p', r', c'). (p', r', (n, take (length r - length r') r) # c')) (ms ic a (p, r, c))"
| "ms ic WordB (p, r, c) = (if word_at p \<noteq> word_at (next_char r) then [(p, r, c)] else [])"
| "ms ic Bol (p, r, c) = (if p = None then [(p, r, c)] else [])"
| "ms ic Eol (p, r, c) = (if r = [] then [(p, r, c)] else [])"

text \<open>
  The result of \<^verbatim>\<open>s.match(re)\<close> for a regular expression without the \<^verbatim>\<open>g\<close>
  flag: the leftmost position at which the pattern matches, and there the first match in
  backtracking order.
\<close>

record rmatch =
  m_all :: string
  m_groups :: caps
  m_prev :: "char option"
  m_rest :: string

fun exec_from :: "bool \<Rightarrow> rx \<Rightarrow> char option \<Rightarrow> string \<Rightarrow> rmatch option" where
  "exec_from ic re p [] =
     (case ms ic re (p, [], []) of
        [] \<Rightarrow> None
      | (p', r', c) # _ \<Rightarrow> Some \<lparr>m_all = [], m_groups = c, m_prev = p', m_rest = r'\<rparr>)"
| "exec_from ic re p (x # xs) =
     (case ms ic re (p, x # xs, []) of
        [] \<Rightarrow> exec_from ic re (Some x) xs
      | (p', r', c) # _ \<Rightarrow>
          Some \<lparr>m_all = take (length (x # xs) - length r') (x # xs), m_groups = c,
                m_prev = p', m_rest = r'\<rparr>)"

definition rx_match :: "bool \<Rightarrow> rx \<Rightarrow> string \<Rightarrow> rmatch option" where
  "rx_match ic re s = exec_from ic re None s"

definition rx_test :: "bool \<Rightarrow> rx \<Rightarrow> string \<Rightarrow> bool" where
  "rx_test ic re s = (rx_match ic re s \<noteq> None)"

definition grp :: "rmatch \<Rightarrow> nat \<Rightarrow> string" where
  \<comment> \<open>\<^verbatim>\<open>m[n]\<close> for a group that took part in the match\<close>
  "grp m n = (case map_of (m_groups m) n of None \<Rightarrow> [] | Some w \<Rightarrow> w)"

text \<open>
  \<^verbatim>\<open>s.replace(re, sub)\<close> for a regular expression with the \<^verbatim>\<open>g\<close> flag: every
  match is replaced, the search resuming where the previous match ended; after an empty
  match one character is copied.
\<close>

function replace_from :: "bool \<Rightarrow> rx \<Rightarrow> string \<Rightarrow> char option \<Rightarrow> string \<Rightarrow> string" where
  "replace_from ic re sub p r =
     (case ms ic re (p, r, []) of
        [] \<Rightarrow> (case r of [] \<Rightarrow> [] | x # xs \<Rightarrow> x # replace_from ic re sub (Some x) xs)
      | (p', r', _) # _ \<Rightarrow>
          if length r' < length r then sub @ replace_from ic re sub p' r'
          else (case r of [] \<Rightarrow> sub | x # xs \<Rightarrow> sub @ x # replace_from ic re sub (Some x) xs))"
  by pat_completeness auto
termination
  by (relation "measure (\<lambda>(ic, re, sub, p, r). length r)") auto

declare replace_from.simps [simp del]

definition replace_all :: "bool \<Rightarrow> rx \<Rightarrow> string \<Rightarrow> string \<Rightarrow> string" where
  "replace_all ic re sub s = replace_from ic re sub None s"

section \<open>Numbers and their text\<close>

text \<open>
  The values the date code computes with: an integer, \<^verbatim>\<open>NaN\<close>, or \<^verbatim>\<open>undefined\<close>
  (an array element that destructuring did not find).
\<close>

datatype jsnum = Num int | NaN | Undefined

definition digits_val :: "string \<Rightarrow> nat" where
  "digits_val ds = foldl (\<lambda>a c. 10 * a + ((of_char c :: nat) - 48)) 0 ds"

definition parseInt :: "string \<Rightarrow> jsnum" where
  \<comment> \<open>\<^verbatim>\<open>parseInt(s, 10)\<close>: leading white space, a sign, then the longest run of digits\<close>
  "parseInt s =
     (let t = dropWhile is_space s;
          neg = (case t of [] \<Rightarrow> False | c # _ \<Rightarrow> c = CHR ''-'');
          u = (case t of [] \<Rightarrow> [] | c # cs \<Rightarrow> if c = CHR ''-'' \<or> c = CHR ''+'' then cs else t);
          ds = takeWhile is_digit u
      in if ds = [] then NaN
         else Num (if neg then - int (digits_val ds) else int (digits_val ds)))"

function show_nat :: "nat \<Rightarrow> string" where
  "show_nat n = (if n < 10 then [char_of (48 + n)] else show_nat (n div 10) @ [char_of (48 + n mod 10)])"
  by pat_completeness auto
termination
  by (relation "measure (\<lambda>n. n)") auto

declare show_nat.simps [simp del]

definition show_int :: "int \<Rightarrow> string" where
  "show_int i = (if i < 0 then CHR ''-'' # show_nat (nat (- i)) else show_nat (nat i))"

fun String_num :: "jsnum \<Rightarrow> string" where
  "String_num (Num i) = show_int i"
| "String_num NaN = ''NaN''"
| "String_num Undefined = ''undefined''"

definition pad2 :: "jsnum \<Rightarrow> string" where
  "pad2 n = padStart2 (String_num n)"

definition nth_or_undefined :: "jsnum list \<Rightarrow> nat \<Rightarrow> jsnum" where
  \<comment> \<open>the elements bound by \<^verbatim>\<open>let [d,m,y] = ...\<close>\<close>
  "nth_or_undefined xs i = (if i < length xs then xs ! i else Undefined)"

fun century :: "jsnum \<Rightarrow> jsnum" where
  \<comment> \<open>\<^verbatim>\<open>if (y < 100) y += 2000\<close>; the comparison is false on \<^verbatim>\<open>NaN\<close> and \<^verbatim>\<open>undefined\<close>\<close>
  "century (Num y) = (if y < 100 then Num (y + 2000) else Num y)"
| "century NaN = NaN"
| "century Undefined = Undefined"

section \<open>The data model\<close>

datatype intent = Entrees | Sorties | Stock

record gaine =
  gaine_type :: string
  gaine_value :: string

text \<open>\<^verbatim>\<open>time\<close> is \<^verbatim>\<open>{}\<close>, \<^verbatim>\<open>{date}\<close> or \<^verbatim>\<open>{from, to}\<close>.\<close>

datatype time = NoTime | OnDate string | FromTo string string

record query =
  intent :: "intent option"
  gaine :: "gaine option"
  time :: time

section \<open>The date phrase resolver\<close>

definition normKeepAccents :: "string \<Rightarrow> string" where
  "normKeepAccents s = trim (replace_all False (plus_g Space) '' '' (normalizeNFKC (toLowerCase s)))"

text \<open>
  \<^verbatim>\<open>FR_MONTHS\<close> is an object literal, so a lookup also finds what the object inherits. The
  key is a lower-cased run of letters; the one inherited property with such a name is
  \<^verbatim>\<open>constructor\<close>, whose value is a function: truthy, and printed as its source text.
\<close>

definition FR_MONTHS :: "(string \<times> nat) list" where
  "FR_MONTHS =
     [(''janvier'', 1), (''fevrier'', 2), (''f'' @ [CHR 0xE9] @ ''vrier'', 2), (''mars'', 3),
      (''avril'', 4), (''mai'', 5), (''juin'', 6), (''juillet'', 7), (''aout'', 8),
      (''ao'' @ [CHR 0xFB] @ ''t'', 8), (''septembre'', 9), (''octobre'', 10),
      (''novembre'', 11), (''decembre'', 12), (''d'' @ [CHR 0xE9] @ ''cembre'', 12)]"

datatype month_entry = Month nat | ObjectConstructor | NoEntry

definition month_lookup :: "string \<Rightarrow> month_entry" where
  "month_lookup k =
     (case map_of FR_MONTHS k of
        Some n \<Rightarrow> Month n
      | None \<Rightarrow> if k = ''constructor'' then ObjectConstructor else NoEntry)"

fun month_truthy :: "month_entry \<Rightarrow> bool" where
  "month_truthy (Month n) = (n \<noteq> 0)"
| "month_truthy ObjectConstructor = True"
| "month_truthy NoEntry = False"

fun pad2_month :: "month_entry \<Rightarrow> string" where
  "pad2_month (Month n) = pad2 (Num (int n))"
| "pad2_month ObjectConstructor = padStart2 ''function Object() { [native code] }''"
| "pad2_month NoEntry = pad2 Undefined"

definition RE_le :: rx where
  \<comment> \<open>\<^verbatim>\<open>/\sle\s+/g\<close>\<close>
  "RE_le = seqs [Atom Space, Str ''le'', plus_g Space]"

definition RE_ymd :: rx where
  \<comment> \<open>\<^verbatim>\<open>/^\d{4}-\d{2}-\d{2}$/\<close>\<close>
  "RE_ymd = seqs [Bol, between Digit 4 4, Str ''-'', between Digit 2 2, Str ''-'',
                  between Digit 2 2, Eol]"

definition sep_class :: cset where
  \<comment> \<open>\<^verbatim>\<open>[\/-]\<close>\<close>
  "sep_class = Or (Lit (CHR ''/'')) (Lit (CHR ''-''))"

definition RE_dmy :: rx where
  \<comment> \<open>\<^verbatim>\<open>/^\d{1,2}[\/-]\d{1,2}[\/-]\d{2,4}$/\<close>\<close>
  "RE_dmy = seqs [Bol, between Digit 1 2, Atom sep_class, between Digit 1 2, Atom sep_class,
                  between Digit 2 4, Eol]"

definition month_class :: cset where
  \<comment> \<open>\<^verbatim>\<open>[a-z\<close> e-acute u-circumflex o-circumflex i-circumflex u-grave a-grave
      a-circumflex c-cedilla\<^verbatim>\<open>]\<close>\<close>
  "month_class =
     Or (Rng (CHR ''a'') (CHR ''z''))
    (Or (Lit (CHR 0xE9)) (Or (Lit (CHR 0xFB)) (Or (Lit (CHR 0xF4)) (Or (Lit (CHR 0xEE))
    (Or (Lit (CHR 0xF9)) (Or (Lit (CHR 0xE0)) (Or (Lit (CHR 0xE2)) (Lit (CHR 0xE7)))))))))"

definition RE_textual :: rx where
  \<comment> \<open>\<^verbatim>\<open>/\b(1er|premier|\d{1,2})\s+([a-z...]+)\s+(\d{4})\b/i\<close>\<close>
  "RE_textual =
     seqs [WordB, Grp 1 (alts [Str ''1er'', Str ''premier'', between Digit 1 2]), plus_g Space,
           Grp 2 (plus_g month_class), plus_g Space, Grp 3 (between Digit 4 4), WordB]"

definition parseFrenchDatePhrase :: "string \<Rightarrow> string option" where
  "parseFrenchDatePhrase fr =
     (if fr = [] then None
      else
        let s = trim (replace_all False RE_le '' '' (normKeepAccents fr)) in
        if rx_test False RE_ymd s then Some s
        else if rx_test False RE_dmy s then
          (let sep = (if CHR ''/'' \<in> set s then CHR ''/'' else CHR ''-'');
               parts = map parseInt (split sep s);
               d = nth_or_undefined parts 0;
               m = nth_or_undefined parts 1;
               y = century (nth_or_undefined parts 2)
           in Some (String_num y @ ''-'' @ pad2 m @ ''-'' @ pad2 d))
        else
          (case rx_match True RE_textual s of
             None \<Rightarrow> None
           | Some m \<Rightarrow>
               let d0 = toLowerCase (grp m 1);
                   d = (if d0 = ''1er'' \<or> d0 = ''premier'' then ''1'' else d0);
                   mo = month_lookup (toLowerCase (grp m 2));
                   y = parseInt (grp m 3)
               in if month_truthy mo
                  then Some (String_num y @ ''-'' @ pad2_month mo @ ''-'' @ pad2 (parseInt d))
                  else None))"

section \<open>The anchor extractor\<close>

definition intent_words :: rx where
  \<comment> \<open>\<^verbatim>\<open>entr[\<close>e-acute\<^verbatim>\<open>e]es?|sorties?|stock\<close>\<close>
  "intent_words =
     alts [seqs [Str ''entr'', Atom (Or (Lit (CHR 0xE9)) (Lit (CHR ''e''))), Str ''e'',
                 opt_g (Lit (CHR ''s''))],
           seqs [Str ''sortie'', opt_g (Lit (CHR ''s''))],
           Str ''stock'']"

definition RE_intent_anchor :: rx where
  \<comment> \<open>\<^verbatim>\<open>/\bles\s+(entr[..]es?|sorties?|stock)\b/i\<close>\<close>
  "RE_intent_anchor = seqs [WordB, Str ''les'', plus_g Space, Grp 1 intent_words, WordB]"

definition gaine_prefixes :: rx where
  \<comment> \<open>\<^verbatim>\<open>(?:gsb|gab|gl|gs)\<close>\<close>
  "gaine_prefixes = alts [Str ''gsb'', Str ''gab'', Str ''gl'', Str ''gs'']"

definition RE_gaine_anchor :: rx where
  \<comment> \<open>\<^verbatim>\<open>/\bde\s+((?:gsb|gab|gl|gs)\s*-?\s*\d{1,5})\b/i\<close>\<close>
  "RE_gaine_anchor =
     seqs [WordB, Str ''de'', plus_g Space,
           Grp 1 (seqs [gaine_prefixes, star_g Space, opt_g (Lit (CHR ''-'')), star_g Space,
                        between Digit 1 5]),
           WordB]"

definition RE_strip :: rx where
  \<comment> \<open>\<^verbatim>\<open>/[\s\-]/g\<close>\<close>
  "RE_strip = Atom (Or Space (Lit (CHR ''-'')))"

definition RE_range :: rx where
  \<comment> \<open>\<^verbatim>\<open>/\bdu\s+(.+?)\s+au\s+(.+?)\b/i\<close>\<close>
  "RE_range =
     seqs [WordB, Str ''du'', plus_g Space, Grp 1 (plus_lazy Dot), plus_g Space, Str ''au'',
           plus_g Space, Grp 2 (plus_lazy Dot), WordB]"

definition RE_single :: rx where
  \<comment> \<open>\<^verbatim>\<open>/\ble\s+(.+?)$/i\<close>\<close>
  "RE_single = seqs [WordB, Str ''le'', plus_g Space, Grp 1 (plus_lazy Dot), Eol]"

definition extractByAnchors :: "string \<Rightarrow> query option" where
  "extractByAnchors text =
     (let t = normKeepAccents text;
          intent =
            (case rx_match True RE_intent_anchor t of
               None \<Rightarrow> None
             | Some intentM \<Rightarrow>
                 let kw = toLowerCase (grp intentM 1)
                 in if startsWith kw ''entr'' then Some Entrees
                    else if startsWith kw ''sort'' then Some Sorties
                    else Some Stock);
          gaine =
            (case rx_match True RE_gaine_anchor t of
               None \<Rightarrow> None
             | Some gaineM \<Rightarrow>
                 let raw = replace_all False RE_strip [] (toLowerCase (grp gaineM 1))
                 in Some \<lparr>gaine_type = ''prefix'', gaine_value = raw\<rparr>);
          time =
            (case rx_match True RE_range t of
               Some rangeM \<Rightarrow>
                 let d1 = parseFrenchDatePhrase (grp rangeM 1);
                     d2 = parseFrenchDatePhrase (grp rangeM 2)
                 in (case (d1, d2) of
                       (Some a, Some b) \<Rightarrow> if a \<noteq> [] \<and> b \<noteq> [] then FromTo a b else NoTime
                     | _ \<Rightarrow> NoTime)
             | None \<Rightarrow>
                 (case rx_match True RE_single t of
                    None \<Rightarrow> NoTime
                  | Some singleM \<Rightarrow>
                      let d = parseFrenchDatePhrase (grp singleM 1)
                      in (case d of
                            Some a \<Rightarrow> if a \<noteq> [] then OnDate a else NoTime
                          | None \<Rightarrow> NoTime)))
      in if intent \<noteq> None \<and> gaine \<noteq> None
         then Some \<lparr>intent = intent, gaine = gaine, time = time\<rparr>
         else None)"

section \<open>The fallback extractor\<close>

definition detectIntent :: "string \<Rightarrow> intent option" where
  "detectIntent t =
     (let low = normKeepAccents t
      in if str_includes low ''entr'' then Some Entrees
         else if str_includes low ''sort'' then Some Sorties
         else if str_includes low ''stock'' then Some Stock
         else None)"

definition RE_gaine_fallback :: rx where
  \<comment> \<open>\<^verbatim>\<open>/\b(gs(?:b)?|gab|gl|gs)\s*-?\s*(\d{1,5})\b/i\<close>\<close>
  "RE_gaine_fallback =
     seqs [WordB,
           Grp 1 (alts [seqs [Str ''gs'', opt_g (Lit (CHR ''b''))], Str ''gab'', Str ''gl'',
                        Str ''gs'']),
           star_g Space, opt_g (Lit (CHR ''-'')), star_g Space, Grp 2 (between Digit 1 5), WordB]"

definition extractGaine :: "string \<Rightarrow> gaine option" where
  "extractGaine t =
     (case rx_match True RE_gaine_fallback t of
        Some m \<Rightarrow> Some \<lparr>gaine_type = ''prefix'', gaine_value = toLowerCase (grp m 1) @ grp m 2\<rparr>
      | None \<Rightarrow> None)"

definition DATE_TOKEN_RE :: rx where
  \<comment> \<open>\<^verbatim>\<open>/\b(\d{4}-\d{2}-\d{2}|\d{1,2}[\/-]\d{1,2}[\/-]\d{2,4})\b/g\<close>\<close>
  "DATE_TOKEN_RE =
     seqs [WordB,
           Grp 1 (alts [seqs [between Digit 4 4, Str ''-'', between Digit 2 2, Str ''-'',
                              between Digit 2 2],
                        seqs [between Digit 1 2, Atom sep_class, between Digit 1 2,
                              Atom sep_class, between Digit 2 4]]),
           WordB]"

definition inline_dmy :: "string \<Rightarrow> string" where
  \<comment> \<open>the conversion that \<^verbatim>\<open>extractTime\<close> writes out for a numeric token\<close>
  "inline_dmy s =
     (let sep = (if CHR ''/'' \<in> set s then CHR ''/'' else CHR ''-'');
          parts = map parseInt (split sep s);
          d = nth_or_undefined parts 0;
          m = nth_or_undefined parts 1;
          y = century (nth_or_undefined parts 2)
      in String_num y @ ''-'' @ pad2 m @ ''-'' @ pad2 d)"

definition first_token :: "string \<Rightarrow> string option" where
  \<comment> \<open>\<^verbatim>\<open>tokens[0]\<close> of \<^verbatim>\<open>(t.match(DATE_TOKEN_RE) || [])\<close>: the first match of the
      global search\<close>
  "first_token t = map_option m_all (rx_match False DATE_TOKEN_RE t)"

definition extractTime :: "string \<Rightarrow> time" where
  "extractTime t =
     (let textual =
            (case rx_match True RE_textual t of
               None \<Rightarrow> None
             | Some singleM \<Rightarrow>
                 (case parseFrenchDatePhrase (m_all singleM) of
                    Some d \<Rightarrow> if d \<noteq> [] then Some (OnDate d) else None
                  | None \<Rightarrow> None))
      in case textual of
           Some r \<Rightarrow> r
         | None \<Rightarrow>
             (case first_token t of
                Some s \<Rightarrow> if rx_test False RE_dmy s then OnDate (inline_dmy s) else OnDate s
              | None \<Rightarrow> NoTime))"

section \<open>Values of the host language, and the normalizers\<close>

text \<open>
  The normalizers receive whatever \<^verbatim>\<open>JSON.parse\<close> produced. A number is given by what
  the program can observe of it: whether it is falsy (\<open>0\<close> or \<^verbatim>\<open>NaN\<close>) and its text
  under \<^verbatim>\<open>String()\<close>. An object is the list of its own properties.
\<close>

datatype jsval =
    JUndef
  | JNull
  | JBool bool
  | JNum bool string
  | JStr string
  | JArr "jsval list"
  | JObj "(string \<times> jsval) list"

datatype error = TypeError

fun js_truthy :: "jsval \<Rightarrow> bool" where
  "js_truthy JUndef = False"
| "js_truthy JNull = False"
| "js_truthy (JBool b) = b"
| "js_truthy (JNum falsy txt) = (\<not> falsy)"
| "js_truthy (JStr s) = (s \<noteq> [])"
| "js_truthy (JArr xs) = True"
| "js_truthy (JObj kvs) = True"

text \<open>
  \<^verbatim>\<open>String(v)\<close>. An array prints its elements joined by commas, \<^verbatim>\<open>null\<close> and
  \<^verbatim>\<open>undefined\<close> elements as nothing. A parsed object prints through the inherited
  \<^verbatim>\<open>toString\<close>; when it has an own property of that name, which is not callable, the
  conversion raises.
\<close>

fun js_String :: "jsval \<Rightarrow> error + string"
  and js_join :: "jsval list \<Rightarrow> error + string" where
  "js_String JUndef = Inr ''undefined''"
| "js_String JNull = Inr ''null''"
| "js_String (JBool b) = Inr (if b then ''true'' else ''false'')"
| "js_String (JNum falsy txt) = Inr txt"
| "js_String (JStr s) = Inr s"
| "js_String (JArr xs) = js_join xs"
| "js_String (JObj kvs) =
     (if map_of kvs ''toString'' = None then Inr ''[object Object]'' else Inl TypeError)"
| "js_join [] = Inr []"
| "js_join (x # xs) =
     (case (if x = JUndef \<or> x = JNull then Inr [] else js_String x) of
        Inl e \<Rightarrow> Inl e
      | Inr a \<Rightarrow>
          if xs = [] then Inr a
          else (case js_join xs of Inl e \<Rightarrow> Inl e | Inr b \<Rightarrow> Inr (a @ '','' @ b)))"

fun js_get :: "jsval \<Rightarrow> string \<Rightarrow> error + jsval" where
  \<comment> \<open>\<^verbatim>\<open>v.k\<close> for the property names the program reads, none of which is inherited\<close>
  "js_get JUndef k = Inl TypeError"
| "js_get JNull k = Inl TypeError"
| "js_get (JObj kvs) k = Inr (case map_of kvs k of None \<Rightarrow> JUndef | Some v \<Rightarrow> v)"
| "js_get v k = Inr JUndef"

definition js_get_opt :: "jsval \<Rightarrow> string \<Rightarrow> jsval" where
  \<comment> \<open>\<^verbatim>\<open>v?.k\<close>; also \<^verbatim>\<open>v.k\<close> where \<open>v\<close> is known to be an object\<close>
  "js_get_opt v k = (case js_get v k of Inl e \<Rightarrow> JUndef | Inr x \<Rightarrow> x)"

definition js_or :: "jsval \<Rightarrow> jsval \<Rightarrow> jsval" where
  "js_or a b = (if js_truthy a then a else b)"

definition is_object :: "jsval \<Rightarrow> bool" where
  \<comment> \<open>\<^verbatim>\<open>typeof v === 'object'\<close>\<close>
  "is_object v = (case v of JNull \<Rightarrow> True | JArr xs \<Rightarrow> True | JObj kvs \<Rightarrow> True | _ \<Rightarrow> False)"

definition parseFrenchDatePhrase_val :: "jsval \<Rightarrow> error + string option" where
  \<comment> \<open>\<^verbatim>\<open>parseFrenchDatePhrase\<close> called with any value: \<^verbatim>\<open>if(!fr) return null\<close>, then
      \<^verbatim>\<open>String(fr)\<close> inside \<^verbatim>\<open>normKeepAccents\<close>, then the code on strings\<close>
  "parseFrenchDatePhrase_val fr =
     (if \<not> js_truthy fr then Inr None
      else (case js_String fr of Inl e \<Rightarrow> Inl e | Inr s \<Rightarrow> Inr (parseFrenchDatePhrase s)))"

definition RE_ws_dash :: rx where
  \<comment> \<open>\<^verbatim>\<open>/\s|-/g\<close>\<close>
  "RE_ws_dash = Alt (Atom Space) (Str ''-'')"

definition RE_gaine_value :: rx where
  \<comment> \<open>\<^verbatim>\<open>/^(gsb|gab|gl|gs)(\d{1,5})$/\<close>\<close>
  "RE_gaine_value = seqs [Bol, Grp 1 gaine_prefixes, Grp 2 (between Digit 1 5), Eol]"

definition normalizeGaineValue :: "jsval \<Rightarrow> error + string option" where
  "normalizeGaineValue v =
     (if \<not> js_truthy v then Inr None
      else (case js_String v of
              Inl e \<Rightarrow> Inl e
            | Inr str \<Rightarrow>
                let s = replace_all False RE_ws_dash [] (toLowerCase str)
                in (case rx_match False RE_gaine_value s of
                      Some m \<Rightarrow> Inr (Some (grp m 1 @ grp m 2))
                    | None \<Rightarrow> Inr None)))"

definition normalizeIntent :: "jsval \<Rightarrow> error + intent option" where
  "normalizeIntent i =
     (if \<not> js_truthy i then Inr None
      else (case js_String i of
              Inl e \<Rightarrow> Inl e
            | Inr str \<Rightarrow>
                let t = toLowerCase str
                in if startsWith t ''entr'' then Inr (Some Entrees)
                   else if startsWith t ''sort'' then Inr (Some Sorties)
                   else if startsWith t ''stock'' then Inr (Some Stock)
                   else Inr None))"

definition normalizeTime :: "jsval \<Rightarrow> error + time" where
  "normalizeTime t =
     (if \<not> js_truthy t \<or> \<not> is_object t then Inr NoTime
      else
        let single = js_or (js_get_opt t ''date'') (js_get_opt t ''single'') in
        if js_truthy single then
          (case parseFrenchDatePhrase_val single of
             Inl e \<Rightarrow> Inl e
           | Inr r1 \<Rightarrow>
               let again =
                     (case js_String single of
                        Inl e \<Rightarrow> Inl e
                      | Inr str \<Rightarrow>
                          (case parseFrenchDatePhrase str of
                             Some d \<Rightarrow> Inr (if d \<noteq> [] then OnDate d else NoTime)
                           | None \<Rightarrow> Inr NoTime))
               in (case r1 of
                     Some d \<Rightarrow> if d \<noteq> [] then Inr (OnDate d) else again
                   | None \<Rightarrow> again))
        else if js_truthy (js_get_opt t ''from'') \<and> js_truthy (js_get_opt t ''to'') then
          (case parseFrenchDatePhrase_val (js_get_opt t ''from'') of
             Inl e \<Rightarrow> Inl e
           | Inr f \<Rightarrow>
               (case parseFrenchDatePhrase_val (js_get_opt t ''to'') of
                  Inl e \<Rightarrow> Inl e
                | Inr to \<Rightarrow>
                    (case (f, to) of
                       (Some a, Some b) \<Rightarrow> Inr (if a \<noteq> [] \<and> b \<noteq> [] then FromTo a b else NoTime)
                     | _ \<Rightarrow> Inr NoTime)))
        else Inr NoTime)"

section \<open>The language-model extractor\<close>

text \<open>
  The services the program calls are parameters of the model: the chat completion (which
  raises, or answers with a message content that may be missing), \<^verbatim>\<open>JSON.parse\<close>
  (\<open>None\<close> when it raises) and the router behind \<^verbatim>\<open>axios.post\<close> (which raises, or
  answers with the value of \<^verbatim>\<open>res?.data?.reply\<close>).
\<close>

datatype chat_result = ChatFailed | ChatContent "string option"

datatype post_result = PostFailed | PostReplied jsval

record payload = query +
  mode :: string
  phone :: string

record env =
  USE_LLM_ANCHORS :: bool
  chat_create :: "string \<Rightarrow> chat_result"
  JSON_parse :: "string \<Rightarrow> jsval option"
  axios_post :: "payload \<Rightarrow> post_result"

definition llm_fields :: "jsval \<Rightarrow> error + query option" where
  \<comment> \<open>the part of \<^verbatim>\<open>llmAnchorsParse\<close> after \<^verbatim>\<open>JSON.parse\<close>, inside the outer \<^verbatim>\<open>try\<close>\<close>
  "llm_fields obj =
     (case js_get obj ''intent'' of
        Inl e \<Rightarrow> Inl e
      | Inr i \<Rightarrow>
     (case normalizeIntent i of
        Inl e \<Rightarrow> Inl e
      | Inr norm_intent \<Rightarrow>
     (case normalizeGaineValue (js_get_opt (js_get_opt obj ''gaine'') ''value'') of
        Inl e \<Rightarrow> Inl e
      | Inr gv \<Rightarrow>
     (case normalizeTime (js_or (js_get_opt obj ''time'') (JObj [])) of
        Inl e \<Rightarrow> Inl e
      | Inr norm_time \<Rightarrow>
          (case (norm_intent, gv) of
             (Some i', Some v) \<Rightarrow>
               if v \<noteq> []
               then Inr (Some \<lparr>intent = Some i',
                                gaine = Some \<lparr>gaine_type = ''prefix'', gaine_value = v\<rparr>,
                                time = norm_time\<rparr>)
               else Inr None
           | _ \<Rightarrow> Inr None)))))"

definition llmAnchorsParse :: "env \<Rightarrow> string \<Rightarrow> query option" where
  "llmAnchorsParse E text =
     (if \<not> USE_LLM_ANCHORS E then None
      else (case chat_create E text of
              ChatFailed \<Rightarrow> None
            | ChatContent None \<Rightarrow> None
            | ChatContent (Some content) \<Rightarrow>
                let raw = trim content in
                if raw = [] then None
                else (case JSON_parse E raw of
                        None \<Rightarrow> None
                      | Some obj \<Rightarrow> (case llm_fields obj of Inl e \<Rightarrow> None | Inr r \<Rightarrow> r))))"

section \<open>The orchestrator\<close>

text \<open>
  Next to the payload, the model returns the strategies that were called, in call order.
\<close>

datatype strategy = LLM | Anchors | Fallback

definition buildAudioPayload :: "string \<Rightarrow> string \<Rightarrow> payload \<times> strategy list" where
  "buildAudioPayload text ph =
     (case extractByAnchors text of
        Some anchored \<Rightarrow>
          (\<lparr>intent = intent anchored, gaine = gaine anchored, time = time anchored,
            mode = ''audio_nlp'', phone = ph\<rparr>, [Anchors])
      | None \<Rightarrow>
          (\<lparr>intent = detectIntent text, gaine = extractGaine text, time = extractTime text,
            mode = ''audio_nlp'', phone = ph\<rparr>, [Anchors, Fallback]))"

definition resolve_payload :: "env \<Rightarrow> string \<Rightarrow> string \<Rightarrow> payload \<times> strategy list" where
  \<comment> \<open>the first lines of \<^verbatim>\<open>handleAudioSmart\<close>, up to \<^verbatim>\<open>if (!payload) payload = ...\<close>\<close>
  "resolve_payload E text ph =
     (if USE_LLM_ANCHORS E then
        (case llmAnchorsParse E text of
           Some llm \<Rightarrow>
             (\<lparr>intent = intent llm, gaine = gaine llm, time = time llm,
               mode = ''audio_nlp'', phone = ph\<rparr>, [LLM])
         | None \<Rightarrow> (case buildAudioPayload text ph of (p, tr) \<Rightarrow> (p, LLM # tr)))
      else buildAudioPayload text ph)"

text \<open>The fixed messages of \<^verbatim>\<open>handleAudioSmart\<close>, and the router's own reply.\<close>

datatype reply = AskIntent | AskGaine | NoClearReply | ServerTrouble | ReplyText string

definition handleAudioSmart :: "env \<Rightarrow> string \<Rightarrow> string \<Rightarrow> reply \<times> payload list" where
  \<comment> \<open>the reply, and the payloads posted to the router\<close>
  "handleAudioSmart E text ph =
     (let p = fst (resolve_payload E text ph) in
      if intent p = None then (AskIntent, [])
      else if gaine p = None then (AskGaine, [])
      else
        (case axios_post E p of
           PostFailed \<Rightarrow> (ServerTrouble, [p])
         | PostReplied v \<Rightarrow>
             (case js_String (js_or v (JStr [])) of
                Inl e \<Rightarrow> (ServerTrouble, [p])
              | Inr s \<Rightarrow>
                  let r = trim s in (if r \<noteq> [] then ReplyText r else NoClearReply, [p]))))"

section \<open>The transcription gate\<close>

text \<open>
  The clock, the gate's timestamp and a log of what happened. \<^verbatim>\<open>sleep(d)\<close> moves the
  clock on by \<open>d\<close> milliseconds.
\<close>

datatype event = GateSleep int | Backoff int | ApiCall nat

record world =
  now :: int
  LAST_TRANSCRIBE_AT :: int
  log :: "event list"

definition sleep :: "(int \<Rightarrow> event) \<Rightarrow> int \<Rightarrow> world \<Rightarrow> world" where
  "sleep tag d w = w\<lparr>now := now w + d, log := log w @ [tag d]\<rparr>"

definition waitForTranscribeSlot :: "int \<Rightarrow> world \<Rightarrow> world" where
  "waitForTranscribeSlot API_MIN_INTERVAL w =
     (let elapsed = now w - LAST_TRANSCRIBE_AT w;
          w' = (if elapsed < API_MIN_INTERVAL then sleep GateSleep (API_MIN_INTERVAL - elapsed) w
                else w)
      in w'\<lparr>LAST_TRANSCRIBE_AT := now w'\<rparr>)"









text \<open>
  Callers that overlap. \<^verbatim>\<open>waitForTranscribeSlot\<close> reads the clock and the timestamp,
  and suspends at \<^verbatim>\<open>await sleep(...)\<close>; the timestamp is written when the caller
  resumes. Between the two, other callers run. \<open>Request c t\<close> is caller \<open>c\<close> entering
  the function at clock \<open>t\<close>; \<open>Resume c t\<close> is its timer firing at clock \<open>t\<close>,
  not before it is due.
\<close>

datatype gate_event = Request nat int | Resume nat int

record gate =
  last_at :: int
  sleepers :: "(nat \<times> int) list"
  grants :: "(nat \<times> int) list"

fun gate_step :: "int \<Rightarrow> gate \<Rightarrow> gate_event \<Rightarrow> gate" where
  "gate_step API_MIN_INTERVAL g (Request c t) =
     (let elapsed = t - last_at g
      in if elapsed < API_MIN_INTERVAL
         then g\<lparr>sleepers := sleepers g @ [(c, t + (API_MIN_INTERVAL - elapsed))]\<rparr>
         else g\<lparr>last_at := t, grants := grants g @ [(c, t)]\<rparr>)"
| "gate_step API_MIN_INTERVAL g (Resume c t) =
     (case map_of (sleepers g) c of
        None \<Rightarrow> g
      | Some due \<Rightarrow>
          if due \<le> t
          then g\<lparr>last_at := t, grants := grants g @ [(c, t)],
                 sleepers := filter (\<lambda>(c', d). c' \<noteq> c) (sleepers g)\<rparr>
          else g)"

definition gate_run :: "int \<Rightarrow> gate \<Rightarrow> gate_event list \<Rightarrow> gate" where
  "gate_run API_MIN_INTERVAL g evs = foldl (gate_step API_MIN_INTERVAL) g evs"

section \<open>The intent lookup as the specification words it\<close>

text \<open>
  Following the specification's words, to compare with \<open>detectIntent\<close>: the stems are
  matched as prefixes of the words of the text, without regard to case or accents, with
  the priority entr before sort before stock.
\<close>

definition fold_accent :: "char \<Rightarrow> char" where
  "fold_accent c = (let n = (of_char c :: nat) in
     if 224 \<le> n \<and> n \<le> 229 then CHR ''a'' else if n = 231 then CHR ''c''
     else if 232 \<le> n \<and> n \<le> 235 then CHR ''e'' else if 236 \<le> n \<and> n \<le> 239 then CHR ''i''
     else if n = 241 then CHR ''n'' else if 242 \<le> n \<and> n \<le> 246 then CHR ''o''
     else if 249 \<le> n \<and> n \<le> 252 then CHR ''u'' else if n = 253 \<or> n = 255 then CHR ''y''
     else c)"

definition detectIntent_word_prefix :: "string \<Rightarrow> intent option" where
  "detectIntent_word_prefix t =
     (let ws = split (CHR '' '') (map fold_accent (normKeepAccents t))
      in if list_ex (\<lambda>w. startsWith w ''entr'') ws then Some Entrees
         else if list_ex (\<lambda>w. startsWith w ''sort'') ws then Some Sorties
         else if list_ex (\<lambda>w. startsWith w ''stock'') ws then Some Stock
         else None)"

section \<open>The shape of a gaine value\<close>

definition valid_gaine :: "string \<Rightarrow> bool" where
  \<comment> \<open>\<^verbatim>\<open>^(gsb|gab|gl|gs)\d{1,5}$\<close>, written without the matcher\<close>
  "valid_gaine v =
     list_ex (\<lambda>p. startsWith v p \<and>
                  (let d = drop (length p) v
                   in 1 \<le> length d \<and> length d \<le> 5 \<and> list_all is_digit d))
       [''gsb'', ''gab'', ''gl'', ''gs'']"

section \<open>Dates, and what the resolver accepts\<close>



definition resolver_phrase :: "string \<Rightarrow> string" where
  "resolver_phrase fr = trim (replace_all False RE_le '' '' (normKeepAccents fr))"

definition some_pattern_matches :: "string \<Rightarrow> bool" where
  "some_pattern_matches s =
     (rx_test False RE_ymd s \<or> rx_test False RE_dmy s
      \<or> (case rx_match True RE_textual s of
            None \<Rightarrow> False
          | Some m \<Rightarrow> month_truthy (month_lookup (toLowerCase (grp m 2)))))"




section \<open>Reading the log and the grants\<close>

fun backoffs :: "event list \<Rightarrow> int list" where
  "backoffs [] = []"
| "backoffs (Backoff d # es) = d # backoffs es"
| "backoffs (e # es) = backoffs es"

fun api_calls :: "event list \<Rightarrow> nat list" where
  "api_calls [] = []"
| "api_calls (ApiCall k # es) = k # api_calls es"
| "api_calls (e # es) = api_calls es"

fun spaced :: "int \<Rightarrow> int list \<Rightarrow> bool" where
  \<comment> \<open>consecutive timestamps are at least \<open>d\<close> apart\<close>
  "spaced d (a # b # ts) = (d \<le> b - a \<and> spaced d (b # ts))"
| "spaced d ts = True"

section \<open>Sample inputs\<close>

definition scenario_range :: string where
  \<comment> \<open>\<^verbatim>\<open>les entr\<close>e-acute\<^verbatim>\<open>es de gab22 du 1er mars 2025 au 15 mars 2025\<close>\<close>
  "scenario_range = ''les entr'' @ [CHR 0xE9] @ ''es de gab22 du 1er mars 2025 au 15 mars 2025''"

definition sample_json_text :: string where
  \<open>sample_json_text =
     ''{"intent":"sorties","gaine":{"value":"GSB-11"},"time":{"date":"01-10-2025"}}''\<close>

definition sample_json :: jsval where
  "sample_json =
     JObj [(''intent'', JStr ''sorties''), (''gaine'', JObj [(''value'', JStr ''GSB-11'')]),
           (''time'', JObj [(''date'', JStr ''01-10-2025'')])]"

definition llm_env :: env where
  \<comment> \<open>the flag on; the model answers every text with \<open>sample_json_text\<close>\<close>
  "llm_env =
     \<lparr>USE_LLM_ANCHORS = True,
      chat_create = (\<lambda>text. ChatContent (Some sample_json_text)),
      JSON_parse = (\<lambda>raw. if raw = sample_json_text then Some sample_json else None),
      axios_post = (\<lambda>p. PostReplied (JStr ''ok''))\<rparr>"

definition local_env :: env where
  \<comment> \<open>the flag off, as by default\<close>
  "local_env =
     \<lparr>USE_LLM_ANCHORS = False,
      chat_create = (\<lambda>text. ChatFailed),
      JSON_parse = (\<lambda>raw. None),
      axios_post = (\<lambda>p. PostReplied (JStr ''ok''))\<rparr>"

definition scenario_single :: string where
  "scenario_single = ''les sorties de gsb11 le 01-10-2025''"

definition scenario_single_query :: query where
  "scenario_single_query =
     \<lparr>intent = Some Sorties,
      gaine = Some \<lparr>gaine_type = ''prefix'', gaine_value = ''gsb11''\<rparr>,
      time = OnDate ''2025-10-01''\<rparr>"

definition clash_text :: string where
  \<comment> \<open>the anchors say \<^verbatim>\<open>sorties\<close> of \<^verbatim>\<open>gab22\<close>; the keyword scan would say \<^verbatim>\<open>entrees\<close>
      (from \<^verbatim>\<open>entre\<close>) of \<^verbatim>\<open>gsb11\<close>\<close>
  "clash_text = ''gsb11 entre les sorties de gab22''"

definition clash_query :: query where
  "clash_query =
     \<lparr>intent = Some Sorties,
      gaine = Some \<lparr>gaine_type = ''prefix'', gaine_value = ''gab22''\<rparr>,
      time = NoTime\<rparr>"

definition as_payload :: "query \<Rightarrow> string \<Rightarrow> payload" where
  \<comment> \<open>the payload built from one strategy's result, field by field\<close>
  "as_payload q ph =
     \<lparr>intent = intent q, gaine = gaine q, time = time q, mode = ''audio_nlp'', phone = ph\<rparr>"






definition idle_gate :: gate where
  "idle_gate = \<lparr>last_at = 0, sleepers = [], grants = []\<rparr>"

definition burst :: "gate_event list" where
  \<comment> \<open>three callers enter at clock 5000; the timers of the two that sleep fire when due\<close>
  "burst = [Request 1 5000, Request 2 5000, Request 3 5000, Resume 2 6200, Resume 3 6200]"

definition spaced_text :: string where
  "spaced_text = ''Les SORTIES de GSB - 11''"

definition gsb11 :: gaine where
  "gsb11 = \<lparr>gaine_type = ''prefix'', gaine_value = ''gsb11''\<rparr>"


section \<open>Properties\<close>

subsection \<open>The all-or-nothing gate of the two extractors\<close>

lemma llm_fields_gate:
  "llm_fields obj = Inr (Some q) \<Longrightarrow> intent q \<noteq> None \<and> gaine q \<noteq> None"
  unfolding llm_fields_def
  by (auto split: sum.splits option.splits if_splits)

text \<open>
  C2. For every text, the anchor extractor and the language-model extractor each return
  null or a query in which both the intent and the gaine are present.
\<close>

theorem extractors_all_or_nothing:
  "(extractByAnchors text = Some q \<longrightarrow> intent q \<noteq> None \<and> gaine q \<noteq> None)
   \<and> (llmAnchorsParse E text = Some q' \<longrightarrow> intent q' \<noteq> None \<and> gaine q' \<noteq> None)"
proof
  show "extractByAnchors text = Some q \<longrightarrow> intent q \<noteq> None \<and> gaine q \<noteq> None"
    unfolding extractByAnchors_def Let_def by (auto split: if_split_asm)
next
  show "llmAnchorsParse E text = Some q' \<longrightarrow> intent q' \<noteq> None \<and> gaine q' \<noteq> None"
    unfolding llmAnchorsParse_def Let_def
    by (auto split: if_splits chat_result.splits option.splits sum.splits dest: llm_fields_gate)
qed

theorem extractors_all_or_nothing_witness:
  "extractByAnchors scenario_single = Some scenario_single_query
   \<and> llmAnchorsParse llm_env scenario_single = Some scenario_single_query
   \<and> intent scenario_single_query \<noteq> None \<and> gaine scenario_single_query \<noteq> None"
proof -
  have a: "extractByAnchors scenario_single = Some scenario_single_query"
    by code_simp
  have b: "llmAnchorsParse llm_env scenario_single = Some scenario_single_query"
    by code_simp
  show ?thesis
    using extractors_all_or_nothing
      [of scenario_single scenario_single_query llm_env scenario_single_query] a b
    by simp
qed

subsection \<open>The orchestrator\<close>

text \<open>
  C8. The decision of \<^verbatim>\<open>handleAudioSmart\<close> depends on the presence of the intent and the
  gaine only: without an intent it asks for the intent, with an intent and no gaine it asks
  for the gaine, and with both it posts the payload to the router, whatever the time is,
  and neither question is the reply.
\<close>

theorem orchestrator_decision:
  "(intent (fst (resolve_payload E text ph)) = None \<longrightarrow>
      handleAudioSmart E text ph = (AskIntent, []))
   \<and> (intent (fst (resolve_payload E text ph)) \<noteq> None
        \<and> gaine (fst (resolve_payload E text ph)) = None \<longrightarrow>
      handleAudioSmart E text ph = (AskGaine, []))
   \<and> (intent (fst (resolve_payload E text ph)) \<noteq> None
        \<and> gaine (fst (resolve_payload E text ph)) \<noteq> None \<longrightarrow>
      snd (handleAudioSmart E text ph) = [fst (resolve_payload E text ph)]
      \<and> fst (handleAudioSmart E text ph) \<noteq> AskIntent
      \<and> fst (handleAudioSmart E text ph) \<noteq> AskGaine)"
  by (auto simp: handleAudioSmart_def Let_def split: post_result.splits sum.splits)

theorem orchestrator_decision_witness:
  "intent (fst (resolve_payload local_env ''bonjour'' ''212'')) = None
   \<and> handleAudioSmart local_env ''bonjour'' ''212'' = (AskIntent, [])
   \<and> intent (fst (resolve_payload local_env ''les sorties'' ''212'')) = Some Sorties
   \<and> gaine (fst (resolve_payload local_env ''les sorties'' ''212'')) = None
   \<and> handleAudioSmart local_env ''les sorties'' ''212'' = (AskGaine, [])
   \<and> fst (resolve_payload local_env ''stock gl90'' ''212'') =
       \<lparr>intent = Some Stock, gaine = Some \<lparr>gaine_type = ''prefix'', gaine_value = ''gl90''\<rparr>,
        time = NoTime, mode = ''audio_nlp'', phone = ''212''\<rparr>
   \<and> snd (handleAudioSmart local_env ''stock gl90'' ''212'') =
       [fst (resolve_payload local_env ''stock gl90'' ''212'')]"
proof -
  have a: "fst (resolve_payload local_env ''bonjour'' ''212'') =
      \<lparr>intent = None, gaine = None, time = NoTime, mode = ''audio_nlp'', phone = ''212''\<rparr>"
    by code_simp
  have b: "fst (resolve_payload local_env ''les sorties'' ''212'') =
      \<lparr>intent = Some Sorties, gaine = None, time = NoTime, mode = ''audio_nlp'', phone = ''212''\<rparr>"
    by code_simp
  have c: "fst (resolve_payload local_env ''stock gl90'' ''212'') =
      \<lparr>intent = Some Stock, gaine = Some \<lparr>gaine_type = ''prefix'', gaine_value = ''gl90''\<rparr>,
       time = NoTime, mode = ''audio_nlp'', phone = ''212''\<rparr>"
    by code_simp
  show ?thesis
    using orchestrator_decision [of local_env "''bonjour''" "''212''"]
      orchestrator_decision [of local_env "''les sorties''" "''212''"]
      orchestrator_decision [of local_env "''stock gl90''" "''212''"]
    by (simp add: a b c)
qed

text \<open>
  C9. When the enabled language-model extractor returns a result, the payload is that
  result field by field and only that strategy was called; when it returns none and the
  anchor extractor returns a result, the payload is the anchor result field by field and
  the fallback lookups were not called. No field comes from another strategy.
\<close>

theorem strict_short_circuit:
  "(USE_LLM_ANCHORS E \<and> llmAnchorsParse E text = Some q \<longrightarrow>
      resolve_payload E text ph = (as_payload q ph, [LLM]))
   \<and> (llmAnchorsParse E text = None \<and> extractByAnchors text = Some a \<longrightarrow>
      fst (resolve_payload E text ph) = as_payload a ph
      \<and> Fallback \<notin> set (snd (resolve_payload E text ph)))
   \<and> (extractByAnchors text = Some a \<longrightarrow>
      buildAudioPayload text ph = (as_payload a ph, [Anchors]))"
  by (simp add: resolve_payload_def buildAudioPayload_def as_payload_def)

theorem strict_short_circuit_witness:
  "USE_LLM_ANCHORS llm_env
   \<and> llmAnchorsParse llm_env clash_text = Some scenario_single_query
   \<and> resolve_payload llm_env clash_text ''212'' = (as_payload scenario_single_query ''212'', [LLM])
   \<and> llmAnchorsParse local_env clash_text = None
   \<and> extractByAnchors clash_text = Some clash_query
   \<and> fst (resolve_payload local_env clash_text ''212'') = as_payload clash_query ''212''
   \<and> Fallback \<notin> set (snd (resolve_payload local_env clash_text ''212''))
   \<and> buildAudioPayload clash_text ''212'' = (as_payload clash_query ''212'', [Anchors])
   \<and> detectIntent clash_text = Some Entrees
   \<and> extractGaine clash_text = Some \<lparr>gaine_type = ''prefix'', gaine_value = ''gsb11''\<rparr>"
proof -
  have u: "USE_LLM_ANCHORS llm_env" by (simp add: llm_env_def)
  have a: "llmAnchorsParse llm_env clash_text = Some scenario_single_query" by code_simp
  have b: "llmAnchorsParse local_env clash_text = None"
    by (simp add: llmAnchorsParse_def local_env_def)
  have c: "extractByAnchors clash_text = Some clash_query" by code_simp
  have d: "detectIntent clash_text = Some Entrees" by code_simp
  have e: "extractGaine clash_text = Some \<lparr>gaine_type = ''prefix'', gaine_value = ''gsb11''\<rparr>"
    by code_simp
  show ?thesis
    using strict_short_circuit [of llm_env clash_text scenario_single_query "''212''" clash_query]
      strict_short_circuit [of local_env clash_text scenario_single_query "''212''" clash_query]
    by (simp add: u a b c d e)
qed

subsection \<open>The retry loop of the transcription\<close>

lemma backoffs_append [simp]: "backoffs (xs @ ys) = backoffs xs @ backoffs ys"
  by (induction xs rule: backoffs.induct) auto

lemma api_calls_append [simp]: "api_calls (xs @ ys) = api_calls xs @ api_calls ys"
  by (induction xs rule: api_calls.induct) auto







subsection \<open>The rate gate\<close>

lemma slot_alone:
  "LAST_TRANSCRIBE_AT (waitForTranscribeSlot mi w) = now (waitForTranscribeSlot mi w)
   \<and> now (waitForTranscribeSlot mi w) - now w = max 0 (mi - (now w - LAST_TRANSCRIBE_AT w))
   \<and> mi \<le> now (waitForTranscribeSlot mi w) - LAST_TRANSCRIBE_AT w"
  by (simp add: waitForTranscribeSlot_def sleep_def Let_def)

text \<open>
  C6. Three slot requests enter the gate at the same clock 5000, the timestamp being older
  than the interval of 1200. The first is granted at once. The second and the third both
  read the timestamp 5000 before either has written it, both compute the wait 1200, and
  both are granted at 6200: two consecutive grants are 0 apart, not 1200.
\<close>

theorem gate_burst:
  "grants (gate_run 1200 idle_gate burst) = [(1, 5000), (2, 6200), (3, 6200)]
   \<and> sleepers (gate_run 1200 idle_gate (take 3 burst)) = [(2, 6200), (3, 6200)]
   \<and> \<not> spaced 1200 (map snd (grants (gate_run 1200 idle_gate burst)))"
  by (simp add: gate_run_def idle_gate_def burst_def)

subsection \<open>The intent lookup of the fallback\<close>

lemma startsWith_iff: "startsWith s p \<longleftrightarrow> (\<exists>v. s = p @ v)"
  by (induction s p rule: startsWith.induct) auto

lemma str_includes_iff: "str_includes s p \<longleftrightarrow> (\<exists>u v. s = u @ p @ v)"
proof (induction s)
  case Nil
  then show ?case by simp
next
  case (Cons c cs)
  have "(\<exists>u v. c # cs = u @ p @ v) \<longleftrightarrow> (\<exists>v. c # cs = p @ v) \<or> (\<exists>u v. cs = u @ p @ v)"
  proof
    assume "\<exists>u v. c # cs = u @ p @ v"
    then obtain u v where uv: "c # cs = u @ p @ v" by blast
    show "(\<exists>v. c # cs = p @ v) \<or> (\<exists>u v. cs = u @ p @ v)"
    proof (cases u)
      case Nil
      with uv show ?thesis by auto
    next
      case (Cons a u')
      with uv have "cs = u' @ p @ v" by simp
      then show ?thesis by blast
    qed
  next
    assume "(\<exists>v. c # cs = p @ v) \<or> (\<exists>u v. cs = u @ p @ v)"
    then show "\<exists>u v. c # cs = u @ p @ v"
    proof
      assume "\<exists>v. c # cs = p @ v"
      then obtain v where "c # cs = [] @ p @ v" by auto
      then show ?thesis by blast
    next
      assume "\<exists>u v. cs = u @ p @ v"
      then obtain u v where "c # cs = (c # u) @ p @ v" by auto
      then show ?thesis by blast
    qed
  qed
  with Cons show ?case by (simp add: startsWith_iff)
qed

text \<open>
  C7, as the claim states it, fails: in \<^verbatim>\<open>stock du centre\<close> no word begins with
  \<^verbatim>\<open>entr\<close> and one begins with \<^verbatim>\<open>stock\<close>, yet \<open>detectIntent\<close> answers
  \<^verbatim>\<open>entrees\<close>, because \<^verbatim>\<open>centre\<close> contains \<^verbatim>\<open>entr\<close>.
\<close>

theorem detectIntent_not_word_prefix:
  "detectIntent ''stock du centre'' = Some Entrees
   \<and> detectIntent_word_prefix ''stock du centre'' = Some Stock"
  by code_simp

text \<open>
  C7, amended. \<open>detectIntent\<close> answers \<^verbatim>\<open>entrees\<close> when the lower-cased, normalised
  text contains \<^verbatim>\<open>entr\<close> anywhere, also inside a word; else \<^verbatim>\<open>sorties\<close> when it
  contains \<^verbatim>\<open>sort\<close>; else \<^verbatim>\<open>stock\<close> when it contains \<^verbatim>\<open>stock\<close>; else null. Two
  texts that differ in case only get the same answer.
\<close>

theorem detectIntent_substring:
  "detectIntent t =
     (if \<exists>u v. normKeepAccents t = u @ ''entr'' @ v then Some Entrees
      else if \<exists>u v. normKeepAccents t = u @ ''sort'' @ v then Some Sorties
      else if \<exists>u v. normKeepAccents t = u @ ''stock'' @ v then Some Stock
      else None)
   \<and> (toLowerCase t = toLowerCase t' \<longrightarrow> detectIntent t = detectIntent t')"
  by (simp add: detectIntent_def Let_def str_includes_iff normKeepAccents_def)

theorem detectIntent_substring_witness:
  "toLowerCase ''STOCK du Centre'' = toLowerCase ''stock du centre''
   \<and> normKeepAccents ''STOCK du Centre'' = ''stock du c'' @ ''entr'' @ ''e''
   \<and> detectIntent ''STOCK du Centre'' = Some Entrees
   \<and> detectIntent ''stock du centre'' = Some Entrees"
proof -
  have a: "toLowerCase ''STOCK du Centre'' = toLowerCase ''stock du centre''"
    by code_simp
  have b: "normKeepAccents ''STOCK du Centre'' = ''stock du c'' @ ''entr'' @ ''e''"
    by code_simp
  have c: "\<exists>u v. normKeepAccents ''STOCK du Centre'' = u @ ''entr'' @ v"
    using b by blast
  show ?thesis
    using detectIntent_substring [of "''STOCK du Centre''" "''stock du centre''"] a b c
    by auto
qed

subsection \<open>What a match of the matcher says\<close>

lemma of_char_lt_256: "(of_char c :: nat) < 256"
  by (cases c) (simp add: of_char_Char)

lemma digit_facts:
  assumes "is_digit c"
  shows "lower_char c = c" "nfkc_char c = c" "\<not> is_space c" "is_word c"
    "c \<noteq> CHR ''-''" "c \<noteq> CHR ''/''"
  using assms by (auto simp: is_digit_def lower_char_def nfkc_char_def is_space_def is_word_def Let_def)

lemma space_facts:
  assumes "is_space c"
  shows "lower_char c = c" "\<not> is_digit c" "\<not> is_word c"
  using assms by (auto simp: is_digit_def lower_char_def is_space_def is_word_def Let_def)

lemma sep_facts:
  "lower_char (CHR ''-'') = CHR ''-''" "lower_char (CHR ''/'') = CHR ''/''"
  "nfkc_char (CHR ''-'') = CHR ''-''" "nfkc_char (CHR ''/'') = CHR ''/''"
  "\<not> is_space (CHR ''-'')" "\<not> is_space (CHR ''/'')"
  "\<not> is_digit (CHR ''-'')" "\<not> is_digit (CHR ''/'')"
  by (simp_all add: lower_char_def nfkc_char_def is_space_def is_digit_def)

lemma ms_AtomD:
  "(p', r', c') \<in> set (ms ic (Atom cs) (p, r, c)) \<Longrightarrow>
   \<exists>x. r = x # r' \<and> cmatch ic cs x \<and> p' = Some x \<and> c' = c"
  by (auto split: list.splits if_splits)

lemma str_match_take:
  "str_match ic a r \<Longrightarrow> length a \<le> length r \<and> str_match ic a (take (length a) r)"
  by (induction ic a r rule: str_match.induct) auto

lemma ms_StrD:
  "(p', r', c') \<in> set (ms ic (Str a) (p, r, c)) \<Longrightarrow>
   \<exists>w. r = w @ r' \<and> length w = length a \<and> str_match ic a w \<and> p' = prev_after p w \<and> c' = c"
proof -
  assume "(p', r', c') \<in> set (ms ic (Str a) (p, r, c))"
  then have m: "str_match ic a r" and r': "r' = drop (length a) r"
    and p': "p' = prev_after p (take (length a) r)" and c': "c' = c"
    by (auto split: if_splits)
  from str_match_take [OF m] have "length (take (length a) r) = length a"
    "str_match ic a (take (length a) r)" by auto
  with r' p' c' show ?thesis
    by (intro exI [of _ "take (length a) r"]) simp
qed

lemma ms_RepD:
  "(p', r', c') \<in> set (ms ic (Rep cs lo hi g) (p, r, c)) \<Longrightarrow>
   \<exists>w. r = w @ r' \<and> lo \<le> length w \<and> (case hi of None \<Rightarrow> True | Some h \<Rightarrow> length w \<le> h)
     \<and> list_all (cmatch ic cs) w \<and> p' = prev_after p w \<and> c' = c"
proof -
  assume "(p', r', c') \<in> set (ms ic (Rep cs lo hi g) (p, r, c))"
  then obtain k where k: "k \<in> set (rep_counts lo hi g (length (takeWhile (cmatch ic cs) r)))"
    and r': "r' = drop k r" and p': "p' = prev_after p (take k r)" and c': "c' = c"
    by auto
  let ?n = "length (takeWhile (cmatch ic cs) r)"
  from k have lo: "lo \<le> k" and kn: "k \<le> ?n"
    and hi: "case hi of None \<Rightarrow> True | Some h \<Rightarrow> k \<le> h"
    by (auto simp: rep_counts_def Let_def split: option.splits if_splits)
  have nr: "?n \<le> length r" by (rule length_takeWhile_le)
  have "take k r = take k (takeWhile (cmatch ic cs) r)"
    using kn by (metis append_eq_conv_conj takeWhile_dropWhile_id take_take min.absorb1)
  then have all: "list_all (cmatch ic cs) (take k r)"
    by (metis in_set_takeD list_all_iff set_takeWhileD)
  have len: "length (take k r) = k" using kn nr by simp
  show ?thesis
    using lo hi all len r' p' c'
    by (intro exI [of _ "take k r"]) (auto split: option.splits)
qed

lemma ms_SeqD:
  "(p'', r'', c'') \<in> set (ms ic (Seq a b) (p, r, c)) \<Longrightarrow>
   \<exists>p' r' c'. (p', r', c') \<in> set (ms ic a (p, r, c)) \<and> (p'', r'', c'') \<in> set (ms ic b (p', r', c'))"
  by auto

lemma ms_AltD:
  "st \<in> set (ms ic (Alt a b) (p, r, c)) \<Longrightarrow>
   st \<in> set (ms ic a (p, r, c)) \<or> st \<in> set (ms ic b (p, r, c))"
  by auto

lemma ms_GrpD:
  "(p', r', c') \<in> set (ms ic (Grp n a) (p, r, c)) \<Longrightarrow>
   \<exists>c0. (p', r', c0) \<in> set (ms ic a (p, r, c)) \<and> c' = (n, take (length r - length r') r) # c0"
  by auto

lemma ms_WordBD:
  "(p', r', c') \<in> set (ms ic WordB (p, r, c)) \<Longrightarrow>
   p' = p \<and> r' = r \<and> c' = c \<and> word_at p \<noteq> word_at (next_char r)"
  by (auto split: if_splits)

lemma ms_EolD:
  "(p', r', c') \<in> set (ms ic Eol (p, r, c)) \<Longrightarrow> p' = p \<and> r' = r \<and> c' = c \<and> r = []"
  by (auto split: if_splits)

lemma exec_from_sound:
  "exec_from ic re p s = Some m \<Longrightarrow>
   \<exists>p0 r0 p'. (p', m_rest m, m_groups m) \<in> set (ms ic re (p0, r0, []))
     \<and> m_all m = take (length r0 - length (m_rest m)) r0 \<and> (\<exists>pre. s = pre @ r0)"
proof (induction s arbitrary: p)
  case Nil
  then obtain p' r' c sts where st: "ms ic re (p, [], []) = (p', r', c) # sts"
    and m: "m = \<lparr>m_all = [], m_groups = c, m_prev = p', m_rest = r'\<rparr>"
    by (auto split: list.splits)
  from st have "(p', r', c) \<in> set (ms ic re (p, [], []))" by simp
  with m show ?case
    by (intro exI [of _ p] exI [of _ "[]"] exI [of _ p']) auto
next
  case (Cons x xs)
  show ?case
  proof (cases "ms ic re (p, x # xs, [])")
    case Nil
    with Cons.prems have "exec_from ic re (Some x) xs = Some m" by simp
    from Cons.IH [OF this] obtain p0 r0 p' pre where
      "(p', m_rest m, m_groups m) \<in> set (ms ic re (p0, r0, []))"
      "m_all m = take (length r0 - length (m_rest m)) r0" "xs = pre @ r0" by blast
    then show ?thesis by (metis append_Cons)
  next
    case (Cons st sts)
    obtain p' r' c where st: "st = (p', r', c)" by (cases st)
    with Cons Cons.prems have m: "m = \<lparr>m_all = take (length (x # xs) - length r') (x # xs), m_groups = c,
                m_prev = p', m_rest = r'\<rparr>" by simp
    have "(p', r', c) \<in> set (ms ic re (p, x # xs, []))" using Cons st by simp
    with m show ?thesis
      by (intro exI [of _ p] exI [of _ "x # xs"] exI [of _ p']) auto
  qed
qed

lemma exec_from_Bol_Some: "exec_from ic (Seq Bol re) (Some x) s = None"
  by (induction s arbitrary: x) auto

lemma rx_match_anchored:
  "rx_match ic (Seq Bol re) s = Some m \<Longrightarrow>
   \<exists>p'. (p', m_rest m, m_groups m) \<in> set (ms ic re (None, s, []))"
proof (cases s)
  case Nil
  assume "rx_match ic (Seq Bol re) s = Some m"
  with Nil show ?thesis
    by (auto simp: rx_match_def split: list.splits)
next
  case (Cons x xs)
  assume a: "rx_match ic (Seq Bol re) s = Some m"
  show ?thesis
  proof (cases "ms ic (Seq Bol re) (None, x # xs, [])")
    case Nil
    with a Cons show ?thesis by (simp add: rx_match_def exec_from_Bol_Some)
  next
    case (Cons st sts)
    obtain p' r' c where st: "st = (p', r', c)" by (cases st)
    from Cons st have "(p', r', c) \<in> set (ms ic (Seq Bol re) (None, x # xs, []))" by simp
    then have "(p', r', c) \<in> set (ms ic re (None, x # xs, []))" by simp
    moreover from a \<open>s = x # xs\<close> Cons st have "m_rest m = r'" "m_groups m = c"
      by (auto simp: rx_match_def)
    ultimately show ?thesis using \<open>s = x # xs\<close> by auto
  qed
qed

declare ms.simps [simp del]

lemma cmatch_False: "cmatch False cs c = in_cset cs c"
  by (simp add: cmatch_def)

lemma lower_char_code:
  "(of_char (lower_char c) :: nat) =
     (let n = (of_char c :: nat) in
      if (65 \<le> n \<and> n \<le> 90) \<or> (192 \<le> n \<and> n \<le> 222 \<and> n \<noteq> 215) then n + 32 else n)"
  by (auto simp: lower_char_def Let_def)

lemma upper_char_code:
  "(of_char (upper_char c) :: nat) =
     (let n = (of_char c :: nat) in
      if (97 \<le> n \<and> n \<le> 122) \<or> (224 \<le> n \<and> n \<le> 254 \<and> n \<noteq> 247) then n - 32 else n)"
  using of_char_lt_256 [of c] by (auto simp: upper_char_def Let_def)

lemma cmatch_Digit [simp]: "cmatch ic Digit = is_digit"
  by (rule ext) (auto simp: cmatch_def is_digit_def lower_char_code upper_char_code Let_def)

lemma cmatch_Space [simp]: "cmatch ic Space = is_space"
  by (rule ext) (auto simp: cmatch_def is_space_def lower_char_code upper_char_code Let_def)

lemma dmy_shape:
  assumes "rx_test False RE_dmy s"
  shows "\<exists>d1 x1 d2 x2 d3. s = d1 @ x1 # d2 @ x2 # d3
     \<and> list_all is_digit d1 \<and> 1 \<le> length d1 \<and> length d1 \<le> 2 \<and> (x1 = CHR ''/'' \<or> x1 = CHR ''-'')
     \<and> list_all is_digit d2 \<and> 1 \<le> length d2 \<and> length d2 \<le> 2 \<and> (x2 = CHR ''/'' \<or> x2 = CHR ''-'')
     \<and> list_all is_digit d3 \<and> 2 \<le> length d3 \<and> length d3 \<le> 4"
proof -
  from assms obtain m where "rx_match False RE_dmy s = Some m"
    by (auto simp: rx_test_def)
  then have "\<exists>p'. (p', m_rest m, m_groups m) \<in> set (ms False
        (seqs [between Digit 1 2, Atom sep_class, between Digit 1 2, Atom sep_class,
               between Digit 2 4, Eol]) (None, s, []))"
    unfolding RE_dmy_def seqs.simps by (rule rx_match_anchored)
  then obtain p' p1 r1 c1 p2 r2 c2 p3 r3 c3 p4 r4 c4 p5 r5 c5 where
    a: "(p1, r1, c1) \<in> set (ms False (between Digit 1 2) (None, s, []))"
    and b: "(p2, r2, c2) \<in> set (ms False (Atom sep_class) (p1, r1, c1))"
    and c: "(p3, r3, c3) \<in> set (ms False (between Digit 1 2) (p2, r2, c2))"
    and d: "(p4, r4, c4) \<in> set (ms False (Atom sep_class) (p3, r3, c3))"
    and e: "(p5, r5, c5) \<in> set (ms False (between Digit 2 4) (p4, r4, c4))"
    and f: "(p', m_rest m, m_groups m) \<in> set (ms False Eol (p5, r5, c5))"
    unfolding seqs.simps by (blast dest!: ms_SeqD)
  from ms_RepD [OF a] obtain d1 where d1: "s = d1 @ r1" "1 \<le> length d1" "length d1 \<le> 2"
    "list_all is_digit d1" by (auto simp: cmatch_False)
  from ms_AtomD [OF b] obtain x1 where x1: "r1 = x1 # r2" "x1 = CHR ''/'' \<or> x1 = CHR ''-''"
    by (auto simp: cmatch_False sep_class_def)
  from ms_RepD [OF c] obtain d2 where d2: "r2 = d2 @ r3" "1 \<le> length d2" "length d2 \<le> 2"
    "list_all is_digit d2" by (auto simp: cmatch_False)
  from ms_AtomD [OF d] obtain x2 where x2: "r3 = x2 # r4" "x2 = CHR ''/'' \<or> x2 = CHR ''-''"
    by (auto simp: cmatch_False sep_class_def)
  from ms_RepD [OF e] obtain d3 where d3: "r4 = d3 @ r5" "2 \<le> length d3" "length d3 \<le> 4"
    "list_all is_digit d3" by (auto simp: cmatch_False)
  from ms_EolD [OF f] have "r5 = []" by simp
  with d1 x1 d2 x2 d3 show ?thesis
    by (intro exI [of _ d1] exI [of _ x1] exI [of _ d2] exI [of _ x2] exI [of _ d3]) simp
qed

lemma str_match_False: "str_match False a w \<Longrightarrow> length w = length a \<Longrightarrow> w = a"
  by (induction False a w rule: str_match.induct) (auto simp: cmatch_False)

lemma ymd_shape:
  assumes "rx_test False RE_ymd s"
  shows "\<exists>y m d. s = y @ ''-'' @ m @ ''-'' @ d
     \<and> list_all is_digit y \<and> length y = 4 \<and> list_all is_digit m \<and> length m = 2
     \<and> list_all is_digit d \<and> length d = 2"
proof -
  from assms obtain m where "rx_match False RE_ymd s = Some m"
    by (auto simp: rx_test_def)
  then have "\<exists>p'. (p', m_rest m, m_groups m) \<in> set (ms False
        (seqs [between Digit 4 4, Str ''-'', between Digit 2 2, Str ''-'',
               between Digit 2 2, Eol]) (None, s, []))"
    unfolding RE_ymd_def seqs.simps by (rule rx_match_anchored)
  then obtain p' p1 r1 c1 p2 r2 c2 p3 r3 c3 p4 r4 c4 p5 r5 c5 where
    a: "(p1, r1, c1) \<in> set (ms False (between Digit 4 4) (None, s, []))"
    and b: "(p2, r2, c2) \<in> set (ms False (Str ''-'') (p1, r1, c1))"
    and c: "(p3, r3, c3) \<in> set (ms False (between Digit 2 2) (p2, r2, c2))"
    and d: "(p4, r4, c4) \<in> set (ms False (Str ''-'') (p3, r3, c3))"
    and e: "(p5, r5, c5) \<in> set (ms False (between Digit 2 2) (p4, r4, c4))"
    and f: "(p', m_rest m, m_groups m) \<in> set (ms False Eol (p5, r5, c5))"
    unfolding seqs.simps by (blast dest!: ms_SeqD)
  from ms_RepD [OF a] obtain d1 where d1: "s = d1 @ r1" "length d1 = 4"
    "list_all is_digit d1" by (auto simp: cmatch_False)
  from ms_StrD [OF b] have x1: "r1 = ''-'' @ r2"
    by (auto dest: str_match_False)
  from ms_RepD [OF c] obtain d2 where d2: "r2 = d2 @ r3" "length d2 = 2"
    "list_all is_digit d2" by (auto simp: cmatch_False)
  from ms_StrD [OF d] have x2: "r3 = ''-'' @ r4"
    by (auto dest: str_match_False)
  from ms_RepD [OF e] obtain d3 where d3: "r4 = d3 @ r5" "length d3 = 2"
    "list_all is_digit d3" by (auto simp: cmatch_False)
  from ms_EolD [OF f] have "r5 = []" by simp
  with d1 x1 d2 x2 d3 show ?thesis
    by (intro exI [of _ d1] exI [of _ d2] exI [of _ d3]) simp
qed

subsection \<open>Numeric date tokens\<close>

lemma replace_spaces_id:
  "\<forall>c \<in> set s. \<not> is_space c \<Longrightarrow> replace_from False (plus_g Space) sub p s = s"
proof (induction s arbitrary: p)
  case Nil
  show ?case
    by (subst replace_from.simps) (simp add: ms.simps rep_counts_def)
next
  case (Cons x xs)
  then show ?case
    by (subst replace_from.simps) (simp add: ms.simps rep_counts_def)
qed

lemma replace_le_id:
  "\<forall>c \<in> set s. \<not> is_space c \<Longrightarrow> replace_from False RE_le sub p s = s"
proof (induction s arbitrary: p)
  case Nil
  show ?case
    by (subst replace_from.simps) (simp add: RE_le_def ms.simps)
next
  case (Cons x xs)
  then show ?case
    by (subst replace_from.simps) (simp add: RE_le_def ms.simps cmatch_False)
qed

lemma trim_id: "\<forall>c \<in> set s. \<not> is_space c \<Longrightarrow> trim s = s"
proof -
  assume a: "\<forall>c \<in> set s. \<not> is_space c"
  then have "dropWhile is_space s = s" by (cases s) auto
  moreover from a have "dropWhile is_space (rev s) = rev s" by (cases "rev s") auto
  ultimately show ?thesis by (simp add: trim_def)
qed

lemma token_normal:
  assumes "\<forall>c \<in> set s. is_digit c \<or> c = CHR ''/'' \<or> c = CHR ''-''"
  shows "trim (replace_all False RE_le '' '' (normKeepAccents s)) = s"
proof -
  from assms have l: "toLowerCase s = s"
    by (auto simp: toLowerCase_def digit_facts sep_facts intro!: map_idI)
  from assms have n: "normalizeNFKC s = s"
    by (auto simp: normalizeNFKC_def digit_facts sep_facts intro!: map_idI)
  from assms have s: "\<forall>c \<in> set s. \<not> is_space c"
    by (auto simp: digit_facts sep_facts)
  have "normKeepAccents s = s"
    by (simp only: normKeepAccents_def l n replace_all_def replace_spaces_id [OF s]
        trim_id [OF s])
  then show ?thesis
    by (simp only: replace_all_def replace_le_id [OF s] trim_id [OF s])
qed

lemma dmy_chars:
  assumes "rx_test False RE_dmy s"
  shows "\<forall>c \<in> set s. is_digit c \<or> c = CHR ''/'' \<or> c = CHR ''-''" and "s \<noteq> []"
  using dmy_shape [OF assms] by (auto simp: list_all_iff)

lemma dmy_not_ymd:
  assumes "rx_test False RE_dmy s"
  shows "\<not> rx_test False RE_ymd s"
proof
  assume "rx_test False RE_ymd s"
  from ymd_shape [OF this] obtain y m d where
    y: "s = y @ ''-'' @ m @ ''-'' @ d" "list_all is_digit y" "length y = 4" by blast
  from dmy_shape [OF assms] obtain d1 x1 r where
    d: "s = d1 @ x1 # r" "1 \<le> length d1" "length d1 \<le> 2" "x1 = CHR ''/'' \<or> x1 = CHR ''-''"
    by blast
  from d have "s ! length d1 = x1" by simp
  moreover from y d have "s ! length d1 = y ! length d1" by (simp add: nth_append)
  moreover from y d have "is_digit (y ! length d1)" by (simp add: list_all_length)
  ultimately show False using d(4) by (auto simp: sep_facts)
qed

lemma dmy_token_resolves:
  assumes "rx_test False RE_dmy tok"
  shows "parseFrenchDatePhrase tok = Some (inline_dmy tok)"
  using assms dmy_not_ymd [OF assms] dmy_chars [OF assms]
  by (simp add: parseFrenchDatePhrase_def inline_dmy_def token_normal Let_def)

text \<open>
  C10. A token that matches the numeric date pattern is left unchanged by the resolver's
  normalisation and is not of the canonical form, so the resolver reaches the same
  conversion that \<^verbatim>\<open>extractTime\<close> writes out: both give the same string, and the date
  that \<^verbatim>\<open>extractTime\<close> returns for such a first token is the one the resolver returns.
\<close>

theorem inline_conversion_agrees:
  "(rx_test False RE_dmy tok \<longrightarrow> parseFrenchDatePhrase tok = Some (inline_dmy tok))
   \<and> (rx_match True RE_textual t = None \<and> first_token t = Some tok \<and> rx_test False RE_dmy tok \<longrightarrow>
        map_option OnDate (parseFrenchDatePhrase tok) = Some (extractTime t))"
  by (simp add: dmy_token_resolves extractTime_def)

theorem inline_conversion_agrees_witness:
  "rx_test False RE_dmy ''1/2/25''
   \<and> parseFrenchDatePhrase ''1/2/25'' = Some ''2025-02-01''
   \<and> inline_dmy ''1/2/25'' = ''2025-02-01''
   \<and> rx_match True RE_textual ''stock gl90 le 1/2/25'' = None
   \<and> first_token ''stock gl90 le 1/2/25'' = Some ''1/2/25''
   \<and> extractTime ''stock gl90 le 1/2/25'' = OnDate ''2025-02-01''"
proof -
  have a: "rx_test False RE_dmy ''1/2/25''" by code_simp
  have b: "inline_dmy ''1/2/25'' = ''2025-02-01''" by code_simp
  have c: "rx_match True RE_textual ''stock gl90 le 1/2/25'' = None" by code_simp
  have d: "first_token ''stock gl90 le 1/2/25'' = Some ''1/2/25''" by code_simp
  show ?thesis
    using inline_conversion_agrees [of "''1/2/25''" "''stock gl90 le 1/2/25''"] a b c d
    by auto
qed

subsection \<open>The gaine values of the three paths\<close>

lemma valid_gaineI:
  "p \<in> {''gsb'', ''gab'', ''gl'', ''gs''} \<Longrightarrow> 1 \<le> length ds \<Longrightarrow> length ds \<le> 5 \<Longrightarrow>
   list_all is_digit ds \<Longrightarrow> valid_gaine (p @ ds)"
proof -
  assume p: "p \<in> {''gsb'', ''gab'', ''gl'', ''gs''}" and d: "1 \<le> length ds" "length ds \<le> 5"
    "list_all is_digit ds"
  have s: "startsWith (p @ ds) p" by (simp add: startsWith_iff)
  have "startsWith (p @ ds) p \<and>
        (let d = drop (length p) (p @ ds) in 1 \<le> length d \<and> length d \<le> 5 \<and> list_all is_digit d)"
    using s d by simp
  with p show ?thesis
    unfolding valid_gaine_def list_ex_iff by (intro bexI [of _ p]) simp_all
qed

lemma replace_strip_filter:
  "replace_from False RE_strip [] p r = filter (\<lambda>x. \<not> (is_space x \<or> x = CHR ''-'')) r"
proof (induction r arbitrary: p)
  case Nil
  show ?case by (subst replace_from.simps) (simp add: RE_strip_def ms.simps)
next
  case (Cons x xs)
  then show ?case
    by (subst replace_from.simps) (simp add: RE_strip_def ms.simps cmatch_False)
qed

lemma of_char_inj: "(of_char x :: nat) = of_char y \<Longrightarrow> x = y"
  by (simp add: of_char_eq_iff)

lemma lower_ascii_id:
  "97 \<le> (of_char a :: nat) \<Longrightarrow> (of_char a :: nat) \<le> 122 \<Longrightarrow> lower_char a = a"
  by (simp add: lower_char_def)

lemma upper_char_lowercase:
  assumes "upper_char x = a" and "97 \<le> (of_char a :: nat)" and "(of_char a :: nat) \<le> 122"
  shows "x = a"
proof -
  from assms(1) have "(of_char (upper_char x) :: nat) = of_char a" by simp
  with assms(2,3) have "(of_char x :: nat) = of_char a"
    unfolding upper_char_code Let_def by (simp split: if_splits) arith
  then show ?thesis by (rule of_char_inj)
qed

lemma cmatch_Lit_lower:
  assumes "cmatch True (Lit a) x" and "97 \<le> (of_char a :: nat)" and "(of_char a :: nat) \<le> 122"
  shows "lower_char x = a"
proof -
  from assms(1) consider "x = a" | "lower_char x = a" | "upper_char x = a"
    by (auto simp: cmatch_def)
  then show ?thesis
  proof cases
    case 1
    with assms(2,3) show ?thesis by (simp add: lower_ascii_id)
  next
    case 2
    then show ?thesis .
  next
    case 3
    from upper_char_lowercase [OF 3 assms(2,3)] assms(2,3) show ?thesis
      by (simp add: lower_ascii_id)
  qed
qed

lemma cmatch_dash: "cmatch ic (Lit (CHR ''-'')) x \<longleftrightarrow> x = CHR ''-''"
proof
  assume "cmatch ic (Lit (CHR ''-'')) x"
  then consider "x = CHR ''-''" | "lower_char x = CHR ''-''" | "upper_char x = CHR ''-''"
    by (auto simp: cmatch_def)
  then show "x = CHR ''-''"
  proof cases
    case 1
    then show ?thesis .
  next
    case 2
    then have "(of_char (lower_char x) :: nat) = 45" by simp
    then have "(of_char x :: nat) = of_char (CHR ''-'')"
      by (simp add: lower_char_code Let_def split: if_splits)
    then show ?thesis by (rule of_char_inj)
  next
    case 3
    then have "(of_char (upper_char x) :: nat) = 45" by simp
    then have "(of_char x :: nat) = of_char (CHR ''-'')"
      unfolding upper_char_code Let_def by (simp split: if_splits) arith
    then show ?thesis by (rule of_char_inj)
  qed
qed (simp add: cmatch_def)

lemma str_match_lower:
  "str_match True a w \<Longrightarrow> length w = length a \<Longrightarrow>
   \<forall>c \<in> set a. 97 \<le> (of_char c :: nat) \<and> (of_char c :: nat) \<le> 122 \<Longrightarrow> toLowerCase w = a"
proof (induction a arbitrary: w)
  case Nil
  then show ?case by (simp add: toLowerCase_def)
next
  case (Cons c cs)
  from Cons.prems(2) obtain x xs where w: "w = x # xs" by (cases w) auto
  with Cons.prems have m: "cmatch True (Lit c) x" and r: "str_match True cs xs"
    and l: "length xs = length cs" by auto
  from Cons.prems(3) have c: "97 \<le> (of_char c :: nat)" "(of_char c :: nat) \<le> 122" by auto
  from Cons.IH [OF r l] Cons.prems(3) have "toLowerCase xs = cs" by simp
  with cmatch_Lit_lower [OF m c] w show ?case by (simp add: toLowerCase_def)
qed

lemma prefix_matches:
  assumes "(p', r', c') \<in> set (ms ic gaine_prefixes (p, r, c))"
  shows "\<exists>w. r = w @ r' \<and> c' = c \<and> p' = prev_after p w
     \<and> (\<exists>a \<in> {''gsb'', ''gab'', ''gl'', ''gs''}. length w = length a \<and> str_match ic a w)"
proof -
  from assms consider
      "(p', r', c') \<in> set (ms ic (Str ''gsb'') (p, r, c))"
    | "(p', r', c') \<in> set (ms ic (Str ''gab'') (p, r, c))"
    | "(p', r', c') \<in> set (ms ic (Str ''gl'') (p, r, c))"
    | "(p', r', c') \<in> set (ms ic (Str ''gs'') (p, r, c))"
    unfolding gaine_prefixes_def alts.simps by (blast dest!: ms_AltD)
  then show ?thesis
  proof cases
    case 1
    from ms_StrD [OF this] show ?thesis by blast
  next
    case 2
    from ms_StrD [OF this] show ?thesis by blast
  next
    case 3
    from ms_StrD [OF this] show ?thesis by blast
  next
    case 4
    from ms_StrD [OF this] show ?thesis by blast
  qed
qed

lemma prefix_lower:
  assumes "a \<in> {''gsb'', ''gab'', ''gl'', ''gs''}" "length w = length a" "str_match True a w"
  shows "toLowerCase w = a"
proof -
  from assms(1) have "\<forall>c \<in> set a. 97 \<le> (of_char c :: nat) \<and> (of_char c :: nat) \<le> 122"
    by auto
  from str_match_lower [OF assms(3,2) this] show ?thesis .
qed

lemma prefix_exact:
  assumes "a \<in> {''gsb'', ''gab'', ''gl'', ''gs''}" "length w = length a" "str_match False a w"
  shows "w = a"
  using str_match_False [OF assms(3,2)] .

lemma strip_spaces:
  "list_all is_space w \<Longrightarrow>
   filter (\<lambda>x. \<not> (is_space x \<or> x = CHR ''-'')) (toLowerCase w) = []"
  by (induction w) (auto simp: toLowerCase_def space_facts)

lemma strip_dashes:
  "list_all (cmatch ic (Lit (CHR ''-''))) w \<Longrightarrow>
   filter (\<lambda>x. \<not> (is_space x \<or> x = CHR ''-'')) (toLowerCase w) = []"
  by (induction w) (auto simp: toLowerCase_def cmatch_dash sep_facts)

lemma strip_digits:
  "list_all is_digit w \<Longrightarrow>
   filter (\<lambda>x. \<not> (is_space x \<or> x = CHR ''-'')) (toLowerCase w) = w"
  by (induction w) (auto simp: toLowerCase_def digit_facts)

lemma strip_prefix:
  "a \<in> {''gsb'', ''gab'', ''gl'', ''gs''} \<Longrightarrow>
   filter (\<lambda>x. \<not> (is_space x \<or> x = CHR ''-'')) a = a"
  by (auto simp: is_space_def)

lemma toLowerCase_append: "toLowerCase (u @ v) = toLowerCase u @ toLowerCase v"
  by (simp add: toLowerCase_def)

lemma gaine_body_shape:
  assumes "(p', r', c') \<in> set (ms True
      (seqs [gaine_prefixes, star_g Space, opt_g (Lit (CHR ''-'')), star_g Space, between Digit 1 5])
      (p, r, c))"
  shows "\<exists>a ds w. r = w @ r' \<and> a \<in> {''gsb'', ''gab'', ''gl'', ''gs''}
     \<and> 1 \<le> length ds \<and> length ds \<le> 5 \<and> list_all is_digit ds
     \<and> filter (\<lambda>x. \<not> (is_space x \<or> x = CHR ''-'')) (toLowerCase w) = a @ ds"
proof -
  from assms obtain p1 r1 c1 p2 r2 c2 p3 r3 c3 p4 r4 c4 where
    a: "(p1, r1, c1) \<in> set (ms True gaine_prefixes (p, r, c))"
    and b: "(p2, r2, c2) \<in> set (ms True (star_g Space) (p1, r1, c1))"
    and c: "(p3, r3, c3) \<in> set (ms True (opt_g (Lit (CHR ''-''))) (p2, r2, c2))"
    and d: "(p4, r4, c4) \<in> set (ms True (star_g Space) (p3, r3, c3))"
    and e: "(p', r', c') \<in> set (ms True (between Digit 1 5) (p4, r4, c4))"
    unfolding seqs.simps by (blast dest!: ms_SeqD)
  from prefix_matches [OF a] obtain w1 a where w1: "r = w1 @ r1"
    "a \<in> {''gsb'', ''gab'', ''gl'', ''gs''}" "length w1 = length a" "str_match True a w1"
    by blast
  from ms_RepD [OF b] obtain w2 where w2: "r1 = w2 @ r2" "list_all is_space w2" by auto
  from ms_RepD [OF c] obtain w3 where w3: "r2 = w3 @ r3"
    "list_all (cmatch True (Lit (CHR ''-''))) w3" by auto
  from ms_RepD [OF d] obtain w4 where w4: "r3 = w4 @ r4" "list_all is_space w4" by auto
  from ms_RepD [OF e] obtain w5 where w5: "r4 = w5 @ r'" "1 \<le> length w5" "length w5 \<le> 5"
    "list_all is_digit w5" by auto
  have "filter (\<lambda>x. \<not> (is_space x \<or> x = CHR ''-'')) (toLowerCase (w1 @ w2 @ w3 @ w4 @ w5)) = a @ w5"
    using prefix_lower [OF w1(2,3,4)] strip_prefix [OF w1(2)]
    by (simp only: toLowerCase_append filter_append strip_spaces [OF w2(2)]
        strip_dashes [OF w3(2)] strip_spaces [OF w4(2)] strip_digits [OF w5(4)]) simp
  moreover have "r = (w1 @ w2 @ w3 @ w4 @ w5) @ r'" using w1 w2 w3 w4 w5 by simp
  ultimately show ?thesis using w1(2) w5(2,3,4) by blast
qed

lemma anchor_gaine_valid:
  assumes "rx_match True RE_gaine_anchor t = Some m"
  shows "valid_gaine (replace_all False RE_strip [] (toLowerCase (grp m 1)))"
proof -
  from exec_from_sound [OF assms [unfolded rx_match_def]] obtain p0 r0 p' where
    "(p', m_rest m, m_groups m) \<in> set (ms True RE_gaine_anchor (p0, r0, []))" by blast
  then obtain p1 r1 c1 p2 r2 c2 p3 r3 c3 p4 r4 c4 where
    a: "(p1, r1, c1) \<in> set (ms True WordB (p0, r0, []))"
    and b: "(p2, r2, c2) \<in> set (ms True (Str ''de'') (p1, r1, c1))"
    and c: "(p3, r3, c3) \<in> set (ms True (plus_g Space) (p2, r2, c2))"
    and d: "(p4, r4, c4) \<in> set (ms True
        (Grp 1 (seqs [gaine_prefixes, star_g Space, opt_g (Lit (CHR ''-'')), star_g Space,
                      between Digit 1 5])) (p3, r3, c3))"
    and e: "(p', m_rest m, m_groups m) \<in> set (ms True WordB (p4, r4, c4))"
    unfolding RE_gaine_anchor_def seqs.simps by (blast dest!: ms_SeqD)
  from ms_GrpD [OF d] obtain c0 where
    g: "(p4, r4, c0) \<in> set (ms True
        (seqs [gaine_prefixes, star_g Space, opt_g (Lit (CHR ''-'')), star_g Space,
               between Digit 1 5]) (p3, r3, c3))"
    and c4: "c4 = (1, take (length r3 - length r4) r3) # c0" by blast
  from gaine_body_shape [OF g] obtain a ds w where w: "r3 = w @ r4"
    "a \<in> {''gsb'', ''gab'', ''gl'', ''gs''}" "1 \<le> length ds" "length ds \<le> 5"
    "list_all is_digit ds"
    "filter (\<lambda>x. \<not> (is_space x \<or> x = CHR ''-'')) (toLowerCase w) = a @ ds" by blast
  from ms_WordBD [OF e] c4 w(1) have "grp m 1 = w" by (simp add: grp_def)
  then have "replace_all False RE_strip [] (toLowerCase (grp m 1)) = a @ ds"
    using w(6) by (simp add: replace_all_def replace_strip_filter)
  with valid_gaineI [OF w(2,3,4,5)] show ?thesis by simp
qed

lemma cmatch_b_lower: "list_all (cmatch True (Lit (CHR ''b''))) v \<Longrightarrow> toLowerCase v = replicate (length v) (CHR ''b'')"
proof (induction v)
  case Nil
  then show ?case by (simp add: toLowerCase_def)
next
  case (Cons x xs)
  then have "cmatch True (Lit (CHR ''b'')) x" by simp
  from cmatch_Lit_lower [OF this] have "lower_char x = CHR ''b''" by simp
  with Cons show ?case by (simp add: toLowerCase_def)
qed

lemma fallback_prefix_shape:
  assumes "(p', r', c') \<in> set (ms True
      (Alt (Seq (Str ''gs'') (opt_g (Lit (CHR ''b'')))) (Alt (Str ''gab'') (Alt (Str ''gl'') (Str ''gs''))))
      (p, r, c))"
  shows "\<exists>w. r = w @ r' \<and> c' = c \<and> toLowerCase w \<in> {''gsb'', ''gab'', ''gl'', ''gs''}"
proof -
  from assms consider
      "(p', r', c') \<in> set (ms True (Seq (Str ''gs'') (opt_g (Lit (CHR ''b'')))) (p, r, c))"
    | "(p', r', c') \<in> set (ms True (Str ''gab'') (p, r, c))"
    | "(p', r', c') \<in> set (ms True (Str ''gl'') (p, r, c))"
    | "(p', r', c') \<in> set (ms True (Str ''gs'') (p, r, c))"
    by (blast dest!: ms_AltD)
  then show ?thesis
  proof cases
    case 1
    then obtain p1 r1 c1 where a: "(p1, r1, c1) \<in> set (ms True (Str ''gs'') (p, r, c))"
      and b: "(p', r', c') \<in> set (ms True (opt_g (Lit (CHR ''b''))) (p1, r1, c1))"
      by (blast dest!: ms_SeqD)
    from ms_StrD [OF a] obtain u where u: "r = u @ r1" "length u = length ''gs''"
      "str_match True ''gs'' u" "c1 = c" by blast
    from ms_RepD [OF b] obtain v where v: "r1 = v @ r'" "length v \<le> 1"
      "list_all (cmatch True (Lit (CHR ''b''))) v" "c' = c1" by auto
    have "toLowerCase u = ''gs''" using str_match_lower [OF u(3,2)] by simp
    moreover have "toLowerCase v = [] \<or> toLowerCase v = ''b''"
      using cmatch_b_lower [OF v(3)] v(2) by (cases v) auto
    ultimately have "toLowerCase (u @ v) \<in> {''gsb'', ''gab'', ''gl'', ''gs''}"
      by (auto simp: toLowerCase_append)
    with u v show ?thesis by (intro exI [of _ "u @ v"]) simp
  next
    case 2
    from ms_StrD [OF this] obtain w where w: "r = w @ r'" "length w = length ''gab''"
      "str_match True ''gab'' w" "c' = c" by blast
    from str_match_lower [OF w(3,2)] have "toLowerCase w = ''gab''" by simp
    with w show ?thesis by (intro exI [of _ w]) simp
  next
    case 3
    from ms_StrD [OF this] obtain w where w: "r = w @ r'" "length w = length ''gl''"
      "str_match True ''gl'' w" "c' = c" by blast
    from str_match_lower [OF w(3,2)] have "toLowerCase w = ''gl''" by simp
    with w show ?thesis by (intro exI [of _ w]) simp
  next
    case 4
    from ms_StrD [OF this] obtain w where w: "r = w @ r'" "length w = length ''gs''"
      "str_match True ''gs'' w" "c' = c" by blast
    from str_match_lower [OF w(3,2)] have "toLowerCase w = ''gs''" by simp
    with w show ?thesis by (intro exI [of _ w]) simp
  qed
qed

lemma fallback_gaine_valid:
  assumes "rx_match True RE_gaine_fallback t = Some m"
  shows "valid_gaine (toLowerCase (grp m 1) @ grp m 2)"
proof -
  from exec_from_sound [OF assms [unfolded rx_match_def]] obtain p0 r0 p' where
    "(p', m_rest m, m_groups m) \<in> set (ms True RE_gaine_fallback (p0, r0, []))" by blast
  then obtain p1 r1 c1 p2 r2 c2 p3 r3 c3 p4 r4 c4 p5 r5 c5 p6 r6 c6 where
    a: "(p1, r1, c1) \<in> set (ms True WordB (p0, r0, []))"
    and b: "(p2, r2, c2) \<in> set (ms True
        (Grp 1 (Alt (Seq (Str ''gs'') (opt_g (Lit (CHR ''b''))))
                  (Alt (Str ''gab'') (Alt (Str ''gl'') (Str ''gs''))))) (p1, r1, c1))"
    and c: "(p3, r3, c3) \<in> set (ms True (star_g Space) (p2, r2, c2))"
    and d: "(p4, r4, c4) \<in> set (ms True (opt_g (Lit (CHR ''-''))) (p3, r3, c3))"
    and e: "(p5, r5, c5) \<in> set (ms True (star_g Space) (p4, r4, c4))"
    and f: "(p6, r6, c6) \<in> set (ms True (Grp 2 (between Digit 1 5)) (p5, r5, c5))"
    and g: "(p', m_rest m, m_groups m) \<in> set (ms True WordB (p6, r6, c6))"
    unfolding RE_gaine_fallback_def seqs.simps alts.simps
    by (blast dest!: ms_SeqD)
  from ms_GrpD [OF b] obtain c0 where
    b': "(p2, r2, c0) \<in> set (ms True
        (Alt (Seq (Str ''gs'') (opt_g (Lit (CHR ''b''))))
           (Alt (Str ''gab'') (Alt (Str ''gl'') (Str ''gs'')))) (p1, r1, c1))"
    and c2: "c2 = (1, take (length r1 - length r2) r1) # c0" by blast
  from fallback_prefix_shape [OF b'] obtain w1 where w1: "r1 = w1 @ r2"
    "toLowerCase w1 \<in> {''gsb'', ''gab'', ''gl'', ''gs''}" by blast
  from ms_RepD [OF c] have c3: "c3 = c2" by blast
  from ms_RepD [OF d] have c4: "c4 = c3" by blast
  from ms_RepD [OF e] have c5: "c5 = c4" by blast
  from ms_GrpD [OF f] obtain c0' where
    f': "(p6, r6, c0') \<in> set (ms True (between Digit 1 5) (p5, r5, c5))"
    and c6: "c6 = (2, take (length r5 - length r6) r5) # c0'" by blast
  from ms_RepD [OF f'] obtain w2 where w2: "r5 = w2 @ r6" "1 \<le> length w2" "length w2 \<le> 5"
    "list_all is_digit w2" "c0' = c5" by auto
  from ms_WordBD [OF g] have "m_groups m = c6" by simp
  with c6 w2 c5 c4 c3 c2 w1 have "grp m 1 = w1" "grp m 2 = w2"
    by (simp_all add: grp_def)
  with valid_gaineI [OF w1(2) w2(2,3,4)] show ?thesis by simp
qed

lemma llm_gaine_valid:
  assumes "rx_match False RE_gaine_value s = Some m"
  shows "valid_gaine (grp m 1 @ grp m 2)"
proof -
  from assms have "\<exists>p'. (p', m_rest m, m_groups m) \<in> set (ms False
      (seqs [Grp 1 gaine_prefixes, Grp 2 (between Digit 1 5), Eol]) (None, s, []))"
    unfolding RE_gaine_value_def seqs.simps by (rule rx_match_anchored)
  then obtain p' p1 r1 c1 p2 r2 c2 where
    a: "(p1, r1, c1) \<in> set (ms False (Grp 1 gaine_prefixes) (None, s, []))"
    and b: "(p2, r2, c2) \<in> set (ms False (Grp 2 (between Digit 1 5)) (p1, r1, c1))"
    and c: "(p', m_rest m, m_groups m) \<in> set (ms False Eol (p2, r2, c2))"
    unfolding seqs.simps by (blast dest!: ms_SeqD)
  from ms_GrpD [OF a] obtain c0 where
    a': "(p1, r1, c0) \<in> set (ms False gaine_prefixes (None, s, []))"
    and c1: "c1 = (1, take (length s - length r1) s) # c0" by blast
  from prefix_matches [OF a'] obtain w1 a where w1: "s = w1 @ r1"
    "a \<in> {''gsb'', ''gab'', ''gl'', ''gs''}" "length w1 = length a" "str_match False a w1"
    by blast
  from prefix_exact [OF w1(2,3,4)] have e: "w1 = a" .
  from ms_GrpD [OF b] obtain c0' where
    b': "(p2, r2, c0') \<in> set (ms False (between Digit 1 5) (p1, r1, c1))"
    and c2: "c2 = (2, take (length r1 - length r2) r1) # c0'" by blast
  from ms_RepD [OF b'] obtain w2 where w2: "r1 = w2 @ r2" "1 \<le> length w2" "length w2 \<le> 5"
    "list_all is_digit w2" "c0' = c1" by auto
  from ms_EolD [OF c] have "m_groups m = c2" by simp
  with c2 c1 w1 w2 e have "grp m 1 = a" "grp m 2 = w2"
    by (simp_all add: grp_def)
  with valid_gaineI [OF w1(2) w2(2,3,4)] show ?thesis by simp
qed

lemma normalizeGaineValue_valid:
  assumes "normalizeGaineValue v = Inr (Some x)"
  shows "valid_gaine x"
proof -
  from assms obtain str m where
    "rx_match False RE_gaine_value (replace_all False RE_ws_dash [] (toLowerCase str)) = Some m"
    and "x = grp m 1 @ grp m 2"
    unfolding normalizeGaineValue_def Let_def
    by (simp split: if_splits sum.splits option.splits)
  with llm_gaine_valid show ?thesis by simp
qed

lemma prefix_plain:
  "a \<in> {''gsb'', ''gab'', ''gl'', ''gs''} \<Longrightarrow>
   toLowerCase a = a \<and> list_all (\<lambda>c. \<not> is_space c \<and> c \<noteq> CHR ''-'') a"
  by (elim insertE emptyE) (simp_all add: toLowerCase_def lower_char_def is_space_def)

lemma digits_plain:
  "list_all is_digit d \<Longrightarrow>
   toLowerCase d = d \<and> list_all (\<lambda>c. \<not> is_space c \<and> c \<noteq> CHR ''-'') d"
  by (induction d) (auto simp: toLowerCase_def digit_facts)

lemma valid_gaine_plain:
  assumes "valid_gaine v"
  shows "toLowerCase v = v \<and> list_all (\<lambda>c. \<not> is_space c \<and> c \<noteq> CHR ''-'') v"
proof -
  from assms obtain a where a: "a \<in> set [''gsb'', ''gab'', ''gl'', ''gs'']" "startsWith v a"
    "list_all is_digit (drop (length a) v)"
    unfolding valid_gaine_def list_ex_iff Let_def by blast
  from a(2) obtain d where v: "v = a @ d" unfolding startsWith_iff by blast
  with a(3) have d: "list_all is_digit d" by simp
  from a(1) have a': "a \<in> {''gsb'', ''gab'', ''gl'', ''gs''}" by simp
  from prefix_plain [OF a'] digits_plain [OF d] v show ?thesis
    by (simp add: toLowerCase_append)
qed

lemma anchors_gaine:
  assumes "extractByAnchors text = Some q" "gaine q = Some g"
  shows "valid_gaine (gaine_value g)"
proof -
  from assms obtain gaineM where
    "rx_match True RE_gaine_anchor (normKeepAccents text) = Some gaineM"
    "gaine_value g = replace_all False RE_strip [] (toLowerCase (grp gaineM 1))"
    unfolding extractByAnchors_def Let_def
    by (auto split: if_split_asm option.split_asm)
  with anchor_gaine_valid show ?thesis by simp
qed

lemma fallback_gaine:
  assumes "extractGaine text = Some g"
  shows "valid_gaine (gaine_value g)"
proof -
  from assms obtain m where "rx_match True RE_gaine_fallback text = Some m"
    "gaine_value g = toLowerCase (grp m 1) @ grp m 2"
    unfolding extractGaine_def by (auto split: option.split_asm)
  with fallback_gaine_valid show ?thesis by simp
qed

lemma llm_fields_gaine:
  assumes "llm_fields obj = Inr (Some q)" "gaine q = Some g"
  shows "valid_gaine (gaine_value g)"
proof -
  from assms obtain v where "normalizeGaineValue v = Inr (Some (gaine_value g))"
    unfolding llm_fields_def
    by (auto split: sum.split_asm option.split_asm if_split_asm)
  then show ?thesis by (rule normalizeGaineValue_valid)
qed

lemma llm_gaine:
  assumes "llmAnchorsParse E text = Some q" "gaine q = Some g"
  shows "valid_gaine (gaine_value g)"
proof -
  from assms(1) obtain obj where "llm_fields obj = Inr (Some q)"
    unfolding llmAnchorsParse_def Let_def
    by (auto split: if_split_asm chat_result.split_asm option.split_asm sum.split_asm)
  from llm_fields_gaine [OF this assms(2)] show ?thesis .
qed

lemma payload_gaine:
  assumes "gaine (fst (resolve_payload E text ph)) = Some g"
  shows "valid_gaine (gaine_value g)"
proof (cases "USE_LLM_ANCHORS E \<and> llmAnchorsParse E text \<noteq> None")
  case True
  then obtain q where q: "llmAnchorsParse E text = Some q" by auto
  with True assms have "gaine q = Some g" by (simp add: resolve_payload_def)
  from llm_gaine [OF q this] show ?thesis .
next
  case False
  then have r: "fst (resolve_payload E text ph) = fst (buildAudioPayload text ph)"
    by (auto simp: resolve_payload_def split: option.splits prod.splits)
  show ?thesis
  proof (cases "extractByAnchors text")
    case None
    with assms r have "extractGaine text = Some g" by (simp add: buildAudioPayload_def)
    then show ?thesis by (rule fallback_gaine)
  next
    case (Some a)
    with assms r have "gaine a = Some g" by (simp add: buildAudioPayload_def)
    from anchors_gaine [OF Some this] show ?thesis .
  qed
qed

text \<open>
  C3. Every gaine value that a path produces matches \<^verbatim>\<open>^(gsb|gab|gl|gs)\d{1,5}$\<close>: the
  value of the anchor extractor, of the fallback lookup, of the normalizer of the
  language-model path and so of that path, and the value in the payload, whichever strategy
  built it. Such a value is lower case and has no white space and no hyphen.
\<close>

theorem gaine_value_shape:
  "(extractByAnchors utterance = Some q \<and> gaine q = Some g \<longrightarrow> valid_gaine (gaine_value g))
   \<and> (extractGaine utterance = Some g' \<longrightarrow> valid_gaine (gaine_value g'))
   \<and> (normalizeGaineValue v = Inr (Some x) \<longrightarrow> valid_gaine x)
   \<and> (llmAnchorsParse E utterance = Some q' \<and> gaine q' = Some g'' \<longrightarrow>
        valid_gaine (gaine_value g''))
   \<and> (gaine (fst (resolve_payload E utterance ph)) = Some g3 \<longrightarrow> valid_gaine (gaine_value g3))
   \<and> (valid_gaine y \<longrightarrow>
        toLowerCase y = y \<and> list_all (\<lambda>c. \<not> is_space c \<and> c \<noteq> CHR ''-'') y)"
  using anchors_gaine [of utterance q g] fallback_gaine [of utterance g']
    normalizeGaineValue_valid [of v x] llm_gaine [of E utterance q' g'']
    payload_gaine [of E utterance ph g3] valid_gaine_plain [of y]
  by blast

theorem gaine_value_shape_witness:
  "extractByAnchors spaced_text = Some \<lparr>intent = Some Sorties, gaine = Some gsb11, time = NoTime\<rparr>
   \<and> extractGaine spaced_text = Some gsb11
   \<and> normalizeGaineValue (JStr ''GSB-11'') = Inr (Some ''gsb11'')
   \<and> llmAnchorsParse llm_env spaced_text = Some scenario_single_query
   \<and> gaine scenario_single_query = Some gsb11
   \<and> gaine (fst (resolve_payload local_env spaced_text ''212'')) = Some gsb11
   \<and> valid_gaine (gaine_value gsb11)
   \<and> toLowerCase ''gsb11'' = ''gsb11''
   \<and> list_all (\<lambda>c. \<not> is_space c \<and> c \<noteq> CHR ''-'') ''gsb11''"
proof -
  have a: "extractByAnchors spaced_text =
      Some \<lparr>intent = Some Sorties, gaine = Some gsb11, time = NoTime\<rparr>"
    by code_simp
  have b: "extractGaine spaced_text = Some gsb11" by code_simp
  have c: "normalizeGaineValue (JStr ''GSB-11'') = Inr (Some ''gsb11'')" by code_simp
  have d: "llmAnchorsParse llm_env spaced_text = Some scenario_single_query" by code_simp
  have e: "gaine scenario_single_query = Some gsb11"
    by (simp add: scenario_single_query_def gsb11_def)
  have f: "gaine (fst (resolve_payload local_env spaced_text ''212'')) = Some gsb11"
    by code_simp
  have g: "gaine_value gsb11 = ''gsb11''" by (simp add: gsb11_def)
  show ?thesis
    using gaine_value_shape [of spaced_text
        "\<lparr>intent = Some Sorties, gaine = Some gsb11, time = NoTime\<rparr>"
        gsb11 gsb11 "JStr ''GSB-11''" "''gsb11''" llm_env scenario_single_query gsb11 "''212''"
        gsb11 "''gsb11''"]
      gaine_value_shape [of spaced_text
        "\<lparr>intent = Some Sorties, gaine = Some gsb11, time = NoTime\<rparr>"
        gsb11 gsb11 "JStr ''GSB-11''" "''gsb11''" local_env scenario_single_query gsb11 "''212''"
        gsb11 "''gsb11''"]
      a b c d e f g
    by simp
qed

subsection \<open>The date phrase resolver\<close>


lemma empty_phrase: "resolver_phrase [] = [] \<and> \<not> some_pattern_matches []"
  by code_simp


lemma resolver_null_iff:
  "parseFrenchDatePhrase s = None \<longleftrightarrow> \<not> some_pattern_matches (resolver_phrase s)"
proof (cases "s = []")
  case True
  then show ?thesis using empty_phrase by (simp add: parseFrenchDatePhrase_def)
next
  case False
  then show ?thesis
    by (simp add: parseFrenchDatePhrase_def some_pattern_matches_def resolver_phrase_def Let_def
        split: option.splits)
qed








































































subsection \<open>The anchor extractor on a date range\<close>

lemma concat_map_hd:
  "concat (map f xs) = y # ys \<Longrightarrow> \<exists>x \<in> set xs. \<exists>zs. f x = y # zs"
proof (induction xs)
  case Nil
  then show ?case by simp
next
  case (Cons x xs)
  then show ?case by (cases "f x") auto
qed

lemma ms_Seq_hd:
  "ms ic (Seq a b) (p, r, c) = y # ys \<Longrightarrow>
   \<exists>p' r' c' zs. (p', r', c') \<in> set (ms ic a (p, r, c)) \<and> ms ic b (p', r', c') = y # zs"
proof -
  assume "ms ic (Seq a b) (p, r, c) = y # ys"
  then have "concat (map (ms ic b) (ms ic a (p, r, c))) = y # ys" by (simp add: ms.simps)
  from concat_map_hd [OF this] show ?thesis by (metis prod_cases3)
qed

lemma concat_upt_first:
  "concat (map f [a ..< b]) = y # ys \<Longrightarrow>
   \<exists>k zs. a \<le> k \<and> k < b \<and> f k = y # zs \<and> (\<forall>j. a \<le> j \<and> j < k \<longrightarrow> f j = [])"
proof (induction "b - a" arbitrary: a)
  case 0
  then show ?case by simp
next
  case (Suc n)
  then have ab: "a < b" by simp
  then have u: "[a ..< b] = a # [Suc a ..< b]" by (simp add: upt_conv_Cons)
  show ?case
  proof (cases "f a")
    case Nil
    with Suc.prems u have "concat (map f [Suc a ..< b]) = y # ys" by simp
    moreover from Suc.hyps(2) have "n = b - Suc a" by simp
    ultimately obtain k zs where k: "Suc a \<le> k" "k < b" "f k = y # zs"
      "\<forall>j. Suc a \<le> j \<and> j < k \<longrightarrow> f j = []"
      using Suc.hyps(1) by blast
    have "\<forall>j. a \<le> j \<and> j < k \<longrightarrow> f j = []"
    proof (intro allI impI)
      fix j assume "a \<le> j \<and> j < k"
      then show "f j = []" using k(4) Nil by (cases "j = a") auto
    qed
    with k show ?thesis by (intro exI [of _ k] exI [of _ zs]) auto
  next
    case (Cons z zs)
    with Suc.prems u have "f a = y # zs" by simp
    with ab show ?thesis by (intro exI [of _ a] exI [of _ zs]) auto
  qed
qed

text \<open>The first match of a lazy group closed by a word boundary.\<close>

lemma lazy_group_first:
  assumes "ms ic (Seq (Grp n (plus_lazy cs)) WordB) (p, r, c) = (p', r', c') # rest"
  shows "\<exists>k. 1 \<le> k \<and> k \<le> length r \<and> r' = drop k r \<and> c' = (n, take k r) # c
     \<and> (\<forall>j. 1 \<le> j \<and> j < k \<longrightarrow>
            word_at (prev_after p (take j r)) = word_at (next_char (drop j r)))"
proof -
  let ?n = "length (takeWhile (cmatch ic cs) r)"
  let ?f = "\<lambda>k. ms ic WordB (prev_after p (take k r), drop k r, (n, take (length r - length (drop k r)) r) # c)"
  have rc: "rep_counts 1 None False ?n = [1 ..< Suc ?n]"
    by (simp only: rep_counts_def Let_def option.case if_False)
  have "ms ic (Seq (Grp n (plus_lazy cs)) WordB) (p, r, c) = concat (map ?f [1 ..< Suc ?n])"
    by (simp only: ms.simps rc map_map comp_def prod.case)
  with assms have "concat (map ?f [1 ..< Suc ?n]) = (p', r', c') # rest" by simp
  from concat_upt_first [OF this] obtain k zs where k: "1 \<le> k" "k < Suc ?n"
    "?f k = (p', r', c') # zs" "\<forall>j. 1 \<le> j \<and> j < k \<longrightarrow> ?f j = []" by blast
  have kr: "k \<le> length r" using k(2) length_takeWhile_le [of "cmatch ic cs" r] by simp
  from k(3) have r': "r' = drop k r" and c': "c' = (n, take (length r - length (drop k r)) r) # c"
    by (auto simp: ms.simps split: if_splits)
  from kr c' have c'': "c' = (n, take k r) # c" by simp
  have "\<forall>j. 1 \<le> j \<and> j < k \<longrightarrow>
      word_at (prev_after p (take j r)) = word_at (next_char (drop j r))"
  proof (intro allI impI)
    fix j assume j: "1 \<le> j \<and> j < k"
    with k(4) have "?f j = []" by blast
    then show "word_at (prev_after p (take j r)) = word_at (next_char (drop j r))"
      by (auto simp: ms.simps split: if_splits)
  qed
  with k(1) kr r' c'' show ?thesis by blast
qed

lemma single_class_run:
  assumes "k \<le> length r"
    and "\<forall>j. 1 \<le> j \<and> j < k \<longrightarrow>
            word_at (prev_after p (take j r)) = word_at (next_char (drop j r))"
  shows "(\<forall>x \<in> set (take k r). is_word x) \<or> (\<forall>x \<in> set (take k r). \<not> is_word x)"
proof -
  have step: "\<And>j. 1 \<le> j \<Longrightarrow> j < k \<Longrightarrow> is_word (r ! (j - 1)) = is_word (r ! j)"
  proof -
    fix j assume j: "1 \<le> j" "j < k"
    with assms(1) have jl: "j < length r" by simp
    from j jl have "take j r \<noteq> []" "length (take j r) = j" by auto
    then have "last (take j r) = r ! (j - 1)"
      using j by (simp add: last_conv_nth)
    with \<open>take j r \<noteq> []\<close> have "prev_after p (take j r) = Some (r ! (j - 1))"
      by (simp add: prev_after_def)
    moreover from jl have "drop j r = r ! j # drop (Suc j) r"
      by (simp add: Cons_nth_drop_Suc)
    then have "next_char (drop j r) = Some (r ! j)"
      by (simp add: next_char_def)
    moreover from assms(2) j
    have "word_at (prev_after p (take j r)) = word_at (next_char (drop j r))" by blast
    ultimately show "is_word (r ! (j - 1)) = is_word (r ! j)"
      by (simp add: word_at_def)
  qed
  have all: "\<And>i. i < k \<Longrightarrow> is_word (r ! i) = is_word (r ! 0)"
  proof -
    fix i show "i < k \<Longrightarrow> is_word (r ! i) = is_word (r ! 0)"
    proof (induction i)
      case 0
      show ?case by simp
    next
      case (Suc i)
      from step [of "Suc i"] Suc.prems have "is_word (r ! i) = is_word (r ! Suc i)" by simp
      with Suc show ?case by simp
    qed
  qed
  show ?thesis
  proof (cases "is_word (r ! 0)")
    case True
    with all assms(1) have "\<forall>x \<in> set (take k r). is_word x"
      by (auto simp: in_set_conv_nth)
    then show ?thesis by blast
  next
    case False
    with all assms(1) have "\<forall>x \<in> set (take k r). \<not> is_word x"
      by (auto simp: in_set_conv_nth)
    then show ?thesis by blast
  qed
qed

lemma exec_from_hd:
  "exec_from ic re p s = Some m \<Longrightarrow>
   \<exists>p0 r0 pre rest. s = pre @ r0
     \<and> ms ic re (p0, r0, []) = (m_prev m, m_rest m, m_groups m) # rest"
proof (induction s arbitrary: p)
  case Nil
  then obtain p' r' c sts where st: "ms ic re (p, [], []) = (p', r', c) # sts"
    and m: "m = \<lparr>m_all = [], m_groups = c, m_prev = p', m_rest = r'\<rparr>"
    by (auto split: list.splits)
  then show ?case by (intro exI [of _ p] exI [of _ "[]"] exI [of _ sts]) simp
next
  case (Cons x xs)
  show ?case
  proof (cases "ms ic re (p, x # xs, [])")
    case Nil
    with Cons.prems have "exec_from ic re (Some x) xs = Some m" by simp
    from Cons.IH [OF this] obtain p0 r0 pre rest where
      "xs = pre @ r0" "ms ic re (p0, r0, []) = (m_prev m, m_rest m, m_groups m) # rest" by blast
    then show ?thesis by (metis append_Cons)
  next
    case (Cons st sts)
    obtain p' r' c where st: "st = (p', r', c)" by (cases st)
    with Cons Cons.prems have m: "m = \<lparr>m_all = take (length (x # xs) - length r') (x # xs),
        m_groups = c, m_prev = p', m_rest = r'\<rparr>" by simp
    with Cons st show ?thesis
      by (intro exI [of _ p] exI [of _ "x # xs"] exI [of _ "[]"] exI [of _ sts]) simp
  qed
qed

lemma range_group2:
  assumes "rx_match True RE_range t = Some m"
  shows "set (grp m 2) \<subseteq> set t
     \<and> ((\<forall>x \<in> set (grp m 2). is_word x) \<or> (\<forall>x \<in> set (grp m 2). \<not> is_word x))"
proof -
  from exec_from_hd [OF assms [unfolded rx_match_def]] obtain p0 r0 pre rest where
    t: "t = pre @ r0"
    and h0: "ms True RE_range (p0, r0, []) = (m_prev m, m_rest m, m_groups m) # rest" by blast
  let ?y = "(m_prev m, m_rest m, m_groups m)"
  from ms_Seq_hd [OF h0 [unfolded RE_range_def seqs.simps]] obtain p1 r1 c1 z1 where
    a1: "(p1, r1, c1) \<in> set (ms True WordB (p0, r0, []))"
    and h1: "ms True (Seq (Str ''du'') (Seq (plus_g Space) (Seq (Grp 1 (plus_lazy Dot))
        (Seq (plus_g Space) (Seq (Str ''au'') (Seq (plus_g Space)
        (Seq (Grp 2 (plus_lazy Dot)) WordB))))))) (p1, r1, c1) = ?y # z1"
    by blast
  from ms_Seq_hd [OF h1] obtain p2 r2 c2 z2 where
    a2: "(p2, r2, c2) \<in> set (ms True (Str ''du'') (p1, r1, c1))"
    and h2: "ms True (Seq (plus_g Space) (Seq (Grp 1 (plus_lazy Dot))
        (Seq (plus_g Space) (Seq (Str ''au'') (Seq (plus_g Space)
        (Seq (Grp 2 (plus_lazy Dot)) WordB)))))) (p2, r2, c2) = ?y # z2" by blast
  from ms_Seq_hd [OF h2] obtain p3 r3 c3 z3 where
    a3: "(p3, r3, c3) \<in> set (ms True (plus_g Space) (p2, r2, c2))"
    and h3: "ms True (Seq (Grp 1 (plus_lazy Dot))
        (Seq (plus_g Space) (Seq (Str ''au'') (Seq (plus_g Space)
        (Seq (Grp 2 (plus_lazy Dot)) WordB))))) (p3, r3, c3) = ?y # z3" by blast
  from ms_Seq_hd [OF h3] obtain p4 r4 c4 z4 where
    a4: "(p4, r4, c4) \<in> set (ms True (Grp 1 (plus_lazy Dot)) (p3, r3, c3))"
    and h4: "ms True (Seq (plus_g Space) (Seq (Str ''au'') (Seq (plus_g Space)
        (Seq (Grp 2 (plus_lazy Dot)) WordB)))) (p4, r4, c4) = ?y # z4" by blast
  from ms_Seq_hd [OF h4] obtain p5 r5 c5 z5 where
    a5: "(p5, r5, c5) \<in> set (ms True (plus_g Space) (p4, r4, c4))"
    and h5: "ms True (Seq (Str ''au'') (Seq (plus_g Space)
        (Seq (Grp 2 (plus_lazy Dot)) WordB))) (p5, r5, c5) = ?y # z5" by blast
  from ms_Seq_hd [OF h5] obtain p6 r6 c6 z6 where
    a6: "(p6, r6, c6) \<in> set (ms True (Str ''au'') (p5, r5, c5))"
    and h6: "ms True (Seq (plus_g Space)
        (Seq (Grp 2 (plus_lazy Dot)) WordB)) (p6, r6, c6) = ?y # z6" by blast
  from ms_Seq_hd [OF h6] obtain p7 r7 c7 z7 where
    a7: "(p7, r7, c7) \<in> set (ms True (plus_g Space) (p6, r6, c6))"
    and h7: "ms True (Seq (Grp 2 (plus_lazy Dot)) WordB) (p7, r7, c7) = ?y # z7" by blast
  from ms_WordBD [OF a1] have s1: "r1 = r0" by simp
  from ms_StrD [OF a2] obtain w2 where s2: "r1 = w2 @ r2" by blast
  from ms_RepD [OF a3] obtain w3 where s3: "r2 = w3 @ r3" by blast
  from ms_GrpD [OF a4] obtain c0 where "(p4, r4, c0) \<in> set (ms True (plus_lazy Dot) (p3, r3, c3))"
    by blast
  from ms_RepD [OF this] obtain w4 where s4: "r3 = w4 @ r4" by blast
  from ms_RepD [OF a5] obtain w5 where s5: "r4 = w5 @ r5" by blast
  from ms_StrD [OF a6] obtain w6 where s6: "r5 = w6 @ r6" by blast
  from ms_RepD [OF a7] obtain w7 where s7: "r6 = w7 @ r7" by blast
  from lazy_group_first [OF h7] obtain k where k: "1 \<le> k" "k \<le> length r7"
    "m_groups m = (2, take k r7) # c7"
    "\<forall>j. 1 \<le> j \<and> j < k \<longrightarrow>
        word_at (prev_after p7 (take j r7)) = word_at (next_char (drop j r7))" by blast
  from k(3) have g: "grp m 2 = take k r7" by (simp add: grp_def)
  have "set (take k r7) \<subseteq> set r7" by (rule set_take_subset)
  also have "set r7 \<subseteq> set t" using t s1 s2 s3 s4 s5 s6 s7 by auto
  finally have "set (grp m 2) \<subseteq> set t" using g by simp
  with single_class_run [OF k(2,4)] g show ?thesis by simp
qed

lemma lower_char_idem: "lower_char (lower_char c) = lower_char c"
proof -
  have "(of_char (lower_char (lower_char c)) :: nat) = of_char (lower_char c)"
    unfolding lower_char_code [of "lower_char c"] unfolding lower_char_code [of c]
    by (simp add: Let_def)
  then show ?thesis by (rule of_char_inj)
qed

lemma nfkc_cases:
  "nfkc_char d = d
   \<or> nfkc_char d \<in> {CHR '' '', CHR ''a'', CHR ''o'', CHR ''1'', CHR ''2'', CHR ''3''}"
  by (simp add: nfkc_char_def Let_def)

lemma nfkc_lower_fixed:
  "lower_char (nfkc_char (lower_char c)) = nfkc_char (lower_char c)
   \<and> nfkc_char (nfkc_char (lower_char c)) = nfkc_char (lower_char c)"
proof -
  let ?d = "lower_char c"
  consider "nfkc_char ?d = ?d"
    | "nfkc_char ?d \<in> {CHR '' '', CHR ''a'', CHR ''o'', CHR ''1'', CHR ''2'', CHR ''3''}"
    using nfkc_cases [of ?d] by blast
  then show ?thesis
  proof cases
    case 1
    then show ?thesis by (simp add: lower_char_idem)
  next
    case 2
    then show ?thesis
      by (elim insertE emptyE) (simp_all add: lower_char_def nfkc_char_def)
  qed
qed

lemma ms_suffix:
  "(p', r', c') \<in> set (ms ic re (p, r, c)) \<Longrightarrow> \<exists>w. r = w @ r'"
proof (induction re arbitrary: p r c p' r' c')
  case (Atom cs)
  from ms_AtomD [OF this] show ?case by (metis append_Cons append_Nil)
next
  case (Str a)
  from ms_StrD [OF this] show ?case by blast
next
  case (Rep cs lo hi g)
  from ms_RepD [OF this] show ?case by blast
next
  case (Seq a b)
  from ms_SeqD [OF Seq.prems] obtain p1 r1 c1 where
    "(p1, r1, c1) \<in> set (ms ic a (p, r, c))" "(p', r', c') \<in> set (ms ic b (p1, r1, c1))"
    by blast
  with Seq.IH show ?case by (metis append.assoc)
next
  case (Alt a b)
  from ms_AltD [OF Alt.prems] Alt.IH show ?case by blast
next
  case (Grp n a)
  from ms_GrpD [OF Grp.prems] Grp.IH show ?case by blast
next
  case WordB
  from ms_WordBD [OF this] show ?case by simp
next
  case Bol
  then show ?case by (auto simp: ms.simps split: if_splits)
next
  case Eol
  from ms_EolD [OF this] show ?case by simp
qed

lemma replace_from_chars:
  "set (replace_from ic re sub p r) \<subseteq> set r \<union> set sub"
proof (induction ic re sub p r rule: replace_from.induct)
  case (1 ic re sub p r)
  show ?case
  proof (cases "ms ic re (p, r, [])")
    case Nil
    show ?thesis
    proof (cases r)
      case Nil
      with \<open>ms ic re (p, r, []) = []\<close> show ?thesis
        by (subst replace_from.simps) simp
    next
      case (Cons x xs)
      with "1.IH"(1) [OF \<open>ms ic re (p, r, []) = []\<close> Cons] \<open>ms ic re (p, r, []) = []\<close>
      show ?thesis by (subst replace_from.simps) auto
    qed
  next
    case (Cons st sts)
    obtain p' r' c' where st: "st = (p', r', c')" by (cases st)
    from Cons st have "(p', r', c') \<in> set (ms ic re (p, r, []))" by simp
    from ms_suffix [OF this] have sub: "set r' \<subseteq> set r" by auto
    show ?thesis
    proof (cases "length r' < length r")
      case True
      from "1.IH"(2) [OF Cons st [symmetric] refl True] sub Cons st True
      show ?thesis by (subst replace_from.simps) auto
    next
      case False
      show ?thesis
      proof (cases r)
        case Nil
        with Cons st False show ?thesis by (subst replace_from.simps) simp
      next
        case (Cons x xs)
        from "1.IH"(3) [OF \<open>ms ic re (p, r, []) = st # sts\<close> st [symmetric] refl False Cons]
          \<open>ms ic re (p, r, []) = st # sts\<close> st False Cons
        show ?thesis by (subst replace_from.simps) auto
      qed
    qed
  qed
qed

lemma trim_chars: "set (trim s) \<subseteq> set s"
  by (auto simp: trim_def dest!: set_dropWhileD)

lemma norm_chars:
  assumes "c \<in> set (normKeepAccents s)"
  shows "lower_char c = c \<and> nfkc_char c = c"
proof -
  from assms have "c \<in> set (replace_from False (plus_g Space) '' '' None
      (normalizeNFKC (toLowerCase s)))"
    using trim_chars by (auto simp: normKeepAccents_def replace_all_def)
  with replace_from_chars [of False "plus_g Space" "'' ''" None "normalizeNFKC (toLowerCase s)"]
  have "c \<in> set (normalizeNFKC (toLowerCase s)) \<or> c = CHR '' ''" by auto
  then show ?thesis
  proof
    assume "c \<in> set (normalizeNFKC (toLowerCase s))"
    then obtain c0 where "c = nfkc_char (lower_char c0)"
      by (auto simp: normalizeNFKC_def toLowerCase_def)
    with nfkc_lower_fixed [of c0] show ?thesis by simp
  next
    assume "c = CHR '' ''"
    then show ?thesis by (simp add: lower_char_def nfkc_char_def)
  qed
qed

lemma single_class_phrase:
  assumes fixed: "\<forall>c \<in> set w. lower_char c = c \<and> nfkc_char c = c"
    and cls: "(\<forall>x \<in> set w. is_word x) \<or> (\<forall>x \<in> set w. \<not> is_word x)"
  shows "(\<forall>x \<in> set (resolver_phrase w). is_word x)
     \<or> (\<forall>x \<in> set (resolver_phrase w). \<not> is_word x)"
proof -
  from fixed have l: "toLowerCase w = w" and n: "normalizeNFKC w = w"
    by (auto simp: toLowerCase_def normalizeNFKC_def intro!: map_idI)
  from cls show ?thesis
  proof
    assume a: "\<forall>x \<in> set w. is_word x"
    then have s: "\<forall>c \<in> set w. \<not> is_space c" using space_facts(3) by blast
    have "normKeepAccents w = w"
      by (simp only: normKeepAccents_def l n replace_all_def replace_spaces_id [OF s]
          trim_id [OF s])
    then have "resolver_phrase w = w"
      by (simp only: resolver_phrase_def replace_all_def replace_le_id [OF s] trim_id [OF s])
    with a show ?thesis by simp
  next
    assume a: "\<forall>x \<in> set w. \<not> is_word x"
    have "set (normKeepAccents w) \<subseteq> set w \<union> {CHR '' ''}"
      unfolding normKeepAccents_def l n replace_all_def
      using trim_chars replace_from_chars [of False "plus_g Space" "'' ''" None w] by fastforce
    moreover have "set (resolver_phrase w) \<subseteq> set (normKeepAccents w) \<union> {CHR '' ''}"
      unfolding resolver_phrase_def replace_all_def
      using trim_chars replace_from_chars [of False RE_le "'' ''" None "normKeepAccents w"]
      by fastforce
    ultimately have "set (resolver_phrase w) \<subseteq> set w \<union> {CHR '' ''}" by blast
    moreover have "\<not> is_word (CHR '' '')" by (simp add: is_word_def)
    ultimately have "\<forall>x \<in> set (resolver_phrase w). \<not> is_word x" using a by auto
    then show ?thesis by blast
  qed
qed

lemma textual_shape:
  assumes "rx_match True RE_textual s = Some m"
  shows "(\<exists>x \<in> set s. is_space x) \<and> (\<exists>x \<in> set s. is_digit x)"
proof -
  from exec_from_sound [OF assms [unfolded rx_match_def]] obtain p0 r0 p' pre where
    s: "s = pre @ r0"
    and "(p', m_rest m, m_groups m) \<in> set (ms True RE_textual (p0, r0, []))" by blast
  then obtain p1 r1 c1 p2 r2 c2 p3 r3 c3 p4 r4 c4 p5 r5 c5 p6 r6 c6 where
    a: "(p1, r1, c1) \<in> set (ms True WordB (p0, r0, []))"
    and b: "(p2, r2, c2) \<in> set (ms True
        (Grp 1 (Alt (Str ''1er'') (Alt (Str ''premier'') (between Digit 1 2)))) (p1, r1, c1))"
    and c: "(p3, r3, c3) \<in> set (ms True (plus_g Space) (p2, r2, c2))"
    and d: "(p4, r4, c4) \<in> set (ms True (Grp 2 (plus_g month_class)) (p3, r3, c3))"
    and e: "(p5, r5, c5) \<in> set (ms True (plus_g Space) (p4, r4, c4))"
    and f: "(p6, r6, c6) \<in> set (ms True (Grp 3 (between Digit 4 4)) (p5, r5, c5))"
    unfolding RE_textual_def seqs.simps alts.simps by (blast dest!: ms_SeqD)
  from ms_WordBD [OF a] have s1: "r1 = r0" by simp
  from ms_suffix [OF b] obtain w2 where s2: "r1 = w2 @ r2" by blast
  from ms_RepD [OF c] obtain w3 where s3: "r2 = w3 @ r3" "1 \<le> length w3" "list_all is_space w3"
    by auto
  from ms_suffix [OF d] obtain w4 where s4: "r3 = w4 @ r4" by blast
  from ms_suffix [OF e] obtain w5 where s5: "r4 = w5 @ r5" by blast
  from ms_GrpD [OF f] obtain c0 where "(p6, r6, c0) \<in> set (ms True (between Digit 4 4) (p5, r5, c5))"
    by blast
  from ms_RepD [OF this] obtain w6 where s6: "r5 = w6 @ r6" "4 \<le> length w6"
    "list_all is_digit w6" by auto
  from s3 obtain x where x: "x \<in> set w3" "is_space x" by (cases w3) auto
  from s6 obtain y where y: "y \<in> set w6" "is_digit y" by (cases w6) auto
  have whole: "s = pre @ w2 @ w3 @ w4 @ w5 @ w6 @ r6"
    using s s1 s2 s3(1) s4 s5 s6(1) by simp
  from x whole have "x \<in> set s" by simp
  moreover from y whole have "y \<in> set s" by simp
  ultimately show ?thesis using x(2) y(2) by blast
qed

lemma single_class_no_form:
  assumes "(\<forall>x \<in> set s. is_word x) \<or> (\<forall>x \<in> set s. \<not> is_word x)"
  shows "\<not> some_pattern_matches s"
proof -
  have mixed: "\<And>a b. a \<in> set s \<Longrightarrow> is_digit a \<Longrightarrow> b \<in> set s \<Longrightarrow> \<not> is_word b \<Longrightarrow> False"
    using assms digit_facts(4) by blast
  have dash: "\<not> is_word (CHR ''-'')" "\<not> is_word (CHR ''/'')" by (simp_all add: is_word_def)
  have "\<not> rx_test False RE_ymd s"
  proof
    assume "rx_test False RE_ymd s"
    from ymd_shape [OF this] obtain y m d where
      s: "s = y @ ''-'' @ m @ ''-'' @ d" "list_all is_digit y" "length y = 4" by blast
    then obtain a where "a \<in> set y" "is_digit a" by (cases y) auto
    with s(1) have "a \<in> set s" "CHR ''-'' \<in> set s" by auto
    with mixed \<open>is_digit a\<close> dash show False by blast
  qed
  moreover have "\<not> rx_test False RE_dmy s"
  proof
    assume "rx_test False RE_dmy s"
    from dmy_shape [OF this] obtain d1 x1 r where
      s: "s = d1 @ x1 # r" "list_all is_digit d1" "1 \<le> length d1"
      "x1 = CHR ''/'' \<or> x1 = CHR ''-''" by blast
    then obtain a where "a \<in> set d1" "is_digit a" by (cases d1) auto
    with s(1) have "a \<in> set s" "x1 \<in> set s" by auto
    with mixed \<open>is_digit a\<close> dash s(4) show False by blast
  qed
  moreover have "rx_match True RE_textual s = None"
  proof (cases "rx_match True RE_textual s")
    case (Some m)
    from textual_shape [OF this] obtain x y where "x \<in> set s" "is_space x" "y \<in> set s"
      "is_digit y" by blast
    with mixed space_facts(3) show ?thesis by blast
  qed simp
  ultimately show ?thesis by (simp add: some_pattern_matches_def)
qed

lemma anchors_never_range:
  assumes "extractByAnchors utterance = Some q"
  shows "time q \<noteq> FromTo a b"
proof
  assume r: "time q = FromTo a b"
  let ?t = "normKeepAccents utterance"
  from assms r obtain rangeM where m: "rx_match True RE_range ?t = Some rangeM"
    and p: "parseFrenchDatePhrase (grp rangeM 2) = Some b"
    unfolding extractByAnchors_def Let_def
    by (auto split: if_split_asm option.split_asm)
  from range_group2 [OF m] have sub: "set (grp rangeM 2) \<subseteq> set ?t"
    and cls: "(\<forall>x \<in> set (grp rangeM 2). is_word x) \<or> (\<forall>x \<in> set (grp rangeM 2). \<not> is_word x)"
    by auto
  from sub norm_chars have "\<forall>c \<in> set (grp rangeM 2). lower_char c = c \<and> nfkc_char c = c"
    by blast
  from single_class_no_form [OF single_class_phrase [OF this cls]]
  have "parseFrenchDatePhrase (grp rangeM 2) = None"
    by (simp add: resolver_null_iff)
  with p show False by simp
qed

text \<open>
  C1. On the phrase \<^verbatim>\<open>les entr\<close>e-acute\<^verbatim>\<open>es de gab22 du 1er mars 2025 au 15 mars 2025\<close> the
  anchor extractor finds the intent \<^verbatim>\<open>entrees\<close> and the gaine \<^verbatim>\<open>gab22\<close>, but its time is
  empty, not the range from 2025-03-01 to 2025-03-15: the second group of the range pattern
  is lazy and closed by a word boundary, so it captures \<^verbatim>\<open>15\<close> only, which the date
  resolver rejects, and the half-resolved range is dropped. This is so for every
  utterance: the second group is a run of word characters or a run of other characters,
  which no form of the resolver accepts, so that the anchor extractor never returns a range.
\<close>

theorem anchor_range_scenario:
  "extractByAnchors scenario_range =
     Some \<lparr>intent = Some Entrees,
           gaine = Some \<lparr>gaine_type = ''prefix'', gaine_value = ''gab22''\<rparr>,
           time = NoTime\<rparr>
   \<and> map_option (\<lambda>m. (grp m 1, grp m 2)) (rx_match True RE_range (normKeepAccents scenario_range))
       = Some (''1er mars 2025'', ''15'')
   \<and> parseFrenchDatePhrase ''1er mars 2025'' = Some ''2025-03-01''
   \<and> parseFrenchDatePhrase ''15'' = None
   \<and> map_option time (extractByAnchors utterance) \<noteq> Some (FromTo a b)"
proof -
  have scenario: "extractByAnchors scenario_range =
     Some \<lparr>intent = Some Entrees,
           gaine = Some \<lparr>gaine_type = ''prefix'', gaine_value = ''gab22''\<rparr>,
           time = NoTime\<rparr>
   \<and> map_option (\<lambda>m. (grp m 1, grp m 2)) (rx_match True RE_range (normKeepAccents scenario_range))
       = Some (''1er mars 2025'', ''15'')
   \<and> parseFrenchDatePhrase ''1er mars 2025'' = Some ''2025-03-01''
   \<and> parseFrenchDatePhrase ''15'' = None"
    unfolding scenario_range_def by code_simp
  have "map_option time (extractByAnchors utterance) \<noteq> Some (FromTo a b)"
    using anchors_never_range [of utterance] by (cases "extractByAnchors utterance") auto
  with scenario show ?thesis by blast
qed

end
